theory Spec2Isabelle
  imports Complex_Main
begin

section \<open>Data model (types/game.ts)\<close>

datatype Stone = Black | White

record Position =
  row :: int
  col :: int

datatype GameMode = PvP | PvE

datatype GameStatus = Playing | BlackWin | WhiteWin | Draw | Paused

datatype GameDifficulty = Easy | Normal | Hard

record HistoryItem =
  position :: Position
  stone :: Stone
  moveNumber :: int
  timestamp :: int

text \<open>
  A \<open>Player\<close> also carries a display name, a string literal chosen by the
  constructor from the game mode; no operation below reads it and it is left out.
\<close>

record Player =
  playerStone :: Stone
  timeUsed :: int
  moveCount :: int

record GameConfig =
  boardSize :: int
  winCount :: int
  gameMode :: GameMode
  difficulty :: "GameDifficulty option"
  timeLimit :: "int option"

text \<open>\<open>Partial<GameConfig>\<close>: every field may be absent.\<close>

record PartialGameConfig =
  boardSize_opt :: "int option"
  winCount_opt :: "int option"
  gameMode_opt :: "GameMode option"
  difficulty_opt :: "GameDifficulty option"
  timeLimit_opt :: "int option"

definition DEFAULT_BOARD_SIZE :: int where
  "DEFAULT_BOARD_SIZE = 15"

definition DEFAULT_WIN_COUNT :: int where
  "DEFAULT_WIN_COUNT = 5"

section \<open>Arrays of cells\<close>

text \<open>
  The board is declared as \<open>(Stone | null)[][]\<close>. At run time an element read beyond the
  end of a row is \<open>undefined\<close>, which is neither \<open>null\<close> nor a stone, and an
  assignment beyond the end of a row lengthens the row, the skipped elements reading as
  \<open>undefined\<close>. A cell therefore has three values. Numbers are modelled as integers.
\<close>

datatype Cell = Undefined | Null | Has Stone

type_synonym Board = "Cell list list"

datatype error = RangeError | TypeError

text \<open>\<open>board[r][c]\<close>: a \<open>TypeError\<close> when \<open>board[r]\<close> is \<open>undefined\<close>.\<close>

definition readCell :: "Board \<Rightarrow> int \<Rightarrow> int \<Rightarrow> error + Cell" where
  "readCell b r c =
     (if 0 \<le> r \<and> r < int (length b)
      then Inr (let rw = b ! nat r
                in if 0 \<le> c \<and> c < int (length rw) then rw ! nat c else Undefined)
      else Inl TypeError)"

text \<open>
  \<open>rw[c] = v\<close>. A negative \<open>c\<close> sets a property that is not an element; every read
  in the code is guarded by \<open>c >= 0\<close>, so that property is never read back.
\<close>

definition writeRow :: "Cell list \<Rightarrow> int \<Rightarrow> Cell \<Rightarrow> Cell list" where
  "writeRow rw c v =
     (if c < 0 then rw
      else if c < int (length rw) then rw[nat c := v]
      else rw @ replicate (nat c - length rw) Undefined @ [v])"

text \<open>\<open>board[r][c] = v\<close>\<close>

definition writeCell :: "Board \<Rightarrow> int \<Rightarrow> int \<Rightarrow> Cell \<Rightarrow> error + Board" where
  "writeCell b r c v =
     (if 0 \<le> r \<and> r < int (length b)
      then Inr (b[nat r := writeRow (b ! nat r) c v])
      else Inl TypeError)"

section \<open>The engine (class Game)\<close>

record Game =
  board :: Board
  currentPlayer :: Stone
  gameStatus :: GameStatus
  winningPositions :: "Position list option"
  history :: "HistoryItem list"
  lastMove :: "Position option"
  config :: GameConfig
  players_black :: Player
  players_white :: Player

text \<open>
  The constructor. \<open>Array(n)\<close> throws a \<open>RangeError\<close> unless \<open>n\<close> is an integer
  with \<open>0 \<le> n < 2^32\<close>.
\<close>

definition mergeConfig :: "PartialGameConfig \<Rightarrow> GameConfig" where
  "mergeConfig pc =
     \<lparr> boardSize = (case boardSize_opt pc of None \<Rightarrow> DEFAULT_BOARD_SIZE | Some n \<Rightarrow> n),
       winCount = (case winCount_opt pc of None \<Rightarrow> DEFAULT_WIN_COUNT | Some n \<Rightarrow> n),
       gameMode = (case gameMode_opt pc of None \<Rightarrow> PvP | Some m \<Rightarrow> m),
       difficulty = (case difficulty_opt pc of None \<Rightarrow> Some Easy | Some d \<Rightarrow> Some d),
       timeLimit = timeLimit_opt pc \<rparr>"

definition emptyBoard :: "int \<Rightarrow> error + Board" where
  "emptyBoard n =
     (if n < 0 \<or> 2 ^ 32 \<le> n then Inl RangeError
      else Inr (replicate (nat n) (replicate (nat n) Null)))"

definition new_Game :: "PartialGameConfig \<Rightarrow> error + Game" where
  "new_Game pc =
     (let cfg = mergeConfig pc
      in case emptyBoard (boardSize cfg) of
           Inl e \<Rightarrow> Inl e
         | Inr b \<Rightarrow>
             Inr \<lparr> board = b,
                   currentPlayer = Black,
                   gameStatus = Playing,
                   winningPositions = None,
                   history = [],
                   lastMove = None,
                   config = cfg,
                   players_black = \<lparr> playerStone = Black, timeUsed = 0, moveCount = 0 \<rparr>,
                   players_white = \<lparr> playerStone = White, timeUsed = 0, moveCount = 0 \<rparr> \<rparr>)"

definition isValidPosition :: "Game \<Rightarrow> Position \<Rightarrow> bool" where
  "isValidPosition g p =
     (row p \<ge> 0 \<and> row p < boardSize (config g) \<and>
      col p \<ge> 0 \<and> col p < boardSize (config g))"

text \<open>
  The inner \<open>while\<close> loop of \<open>checkWin\<close>: from \<open>(r, c)\<close>, step by \<open>(dr, dc)\<close> while
  the cell is inside \<open>boardSize\<close> and equals \<open>v\<close>, collecting the positions passed.
  The direction is always one of the eight literal unit vectors of the \<open>directions\<close>
  table; the test that it is not \<open>(0, 0)\<close> is what makes the recursion total.
\<close>

function walk :: "Board \<Rightarrow> int \<Rightarrow> Cell \<Rightarrow> int \<times> int \<Rightarrow> int \<Rightarrow> int \<Rightarrow> error + Position list" where
  "walk b n v (dr, dc) r c =
     (if (dr \<noteq> 0 \<or> dc \<noteq> 0) \<and> r \<ge> 0 \<and> r < n \<and> c \<ge> 0 \<and> c < n
      then (case readCell b r c of
              Inl e \<Rightarrow> Inl e
            | Inr x \<Rightarrow>
                if x = v
                then (case walk b n v (dr, dc) (r + dr) (c + dc) of
                        Inl e \<Rightarrow> Inl e
                      | Inr ps \<Rightarrow> Inr (\<lparr> row = r, col = c \<rparr> # ps))
                else Inr [])
      else Inr [])"
  by pat_completeness auto
termination
  by (relation "measure (\<lambda>(b, n, v, (dr, dc), r, c).
        nat ((if dr > 0 then n - r else if dr < 0 then r + 1 else 0) +
             (if dc > 0 then n - c else if dc < 0 then c + 1 else 0)))")
     (auto split: if_splits)

definition directions :: "((int \<times> int) \<times> (int \<times> int)) list" where
  "directions = [((0, 1), (0, -1)), ((1, 0), (-1, 0)), ((1, 1), (-1, -1)), ((1, -1), (-1, 1))]"

text \<open>
  One pass of the outer loop body of \<open>checkWin\<close>: the positions gathered on one axis,
  the placed position first, then the first direction, then the opposite one.
\<close>

definition axisPositions ::
  "Board \<Rightarrow> int \<Rightarrow> Cell \<Rightarrow> Position \<Rightarrow> (int \<times> int) \<times> (int \<times> int) \<Rightarrow> error + Position list" where
  "axisPositions b n v p direction =
     (case walk b n v (fst direction) (row p + fst (fst direction)) (col p + snd (fst direction)) of
        Inl e \<Rightarrow> Inl e
      | Inr ps1 \<Rightarrow>
          (case walk b n v (snd direction) (row p + fst (snd direction)) (col p + snd (snd direction)) of
             Inl e \<Rightarrow> Inl e
           | Inr ps2 \<Rightarrow> Inr (\<lparr> row = row p, col = col p \<rparr> # ps1 @ ps2)))"

fun checkWin_loop ::
  "Game \<Rightarrow> Cell \<Rightarrow> Position \<Rightarrow> ((int \<times> int) \<times> (int \<times> int)) list \<Rightarrow> error + (bool \<times> Game)" where
  "checkWin_loop g v p [] = Inr (False, g)"
| "checkWin_loop g v p (direction # rest) =
     (case axisPositions (board g) (boardSize (config g)) v p direction of
        Inl e \<Rightarrow> Inl e
      | Inr positions \<Rightarrow>
          if int (length positions) \<ge> winCount (config g)
          then Inr (True, g\<lparr> winningPositions := Some positions \<rparr>)
          else checkWin_loop g v p rest)"

definition checkWin :: "Game \<Rightarrow> Position \<Rightarrow> error + (bool \<times> Game)" where
  "checkWin g lastPosition =
     (case readCell (board g) (row lastPosition) (col lastPosition) of
        Inl e \<Rightarrow> Inl e
      | Inr v \<Rightarrow> checkWin_loop g v lastPosition directions)"

text \<open>All positions of an \<open>n \<times> n\<close> grid in the order of the nested \<open>for\<close> loops.\<close>

definition gridPositions :: "int \<Rightarrow> Position list" where
  "gridPositions n = concat (map (\<lambda>r. map (\<lambda>c. \<lparr> row = r, col = c \<rparr>) [0..n - 1]) [0..n - 1])"

fun isDraw_scan :: "Board \<Rightarrow> Position list \<Rightarrow> error + bool" where
  "isDraw_scan b [] = Inr True"
| "isDraw_scan b (p # ps) =
     (case readCell b (row p) (col p) of
        Inl e \<Rightarrow> Inl e
      | Inr x \<Rightarrow> if x = Null then Inr False else isDraw_scan b ps)"

definition isDraw :: "Game \<Rightarrow> error + bool" where
  "isDraw g = isDraw_scan (board g) (gridPositions (boardSize (config g)))"

fun getEmptyPositions_scan :: "Board \<Rightarrow> Position list \<Rightarrow> error + Position list" where
  "getEmptyPositions_scan b [] = Inr []"
| "getEmptyPositions_scan b (p # ps) =
     (case readCell b (row p) (col p) of
        Inl e \<Rightarrow> Inl e
      | Inr x \<Rightarrow>
          (case getEmptyPositions_scan b ps of
             Inl e \<Rightarrow> Inl e
           | Inr qs \<Rightarrow> Inr (if x = Null then p # qs else qs)))"

definition getEmptyPositions :: "Game \<Rightarrow> error + Position list" where
  "getEmptyPositions g = getEmptyPositions_scan (board g) (gridPositions (boardSize (config g)))"

definition otherStone :: "Stone \<Rightarrow> Stone" where
  "otherStone s = (if s = Black then White else Black)"

text \<open>
  \<open>player.moveCount++\<close> and \<open>moveCount--\<close>. The counters are JavaScript numbers;
  here they are counted in exact integers, which is what the code computes as long as a
  counter stays below \<open>2^53\<close> in absolute value. The properties proved below for all
  engines state nothing about the value of a counter after an increment or a decrement;
  the example engines count no further than 5.
\<close>

definition incMoveCount :: "Stone \<Rightarrow> Game \<Rightarrow> Game" where
  "incMoveCount s g =
     (if s = Black
      then g\<lparr> players_black := (players_black g)\<lparr> moveCount := moveCount (players_black g) + 1 \<rparr> \<rparr>
      else g\<lparr> players_white := (players_white g)\<lparr> moveCount := moveCount (players_white g) + 1 \<rparr> \<rparr>)"

definition decMoveCount :: "Stone \<Rightarrow> Game \<Rightarrow> Game" where
  "decMoveCount s g =
     (if s = Black
      then g\<lparr> players_black := (players_black g)\<lparr> moveCount := moveCount (players_black g) - 1 \<rparr> \<rparr>
      else g\<lparr> players_white := (players_white g)\<lparr> moveCount := moveCount (players_white g) - 1 \<rparr> \<rparr>)"

text \<open>
  \<open>placeStone\<close>; \<open>now\<close> is the value of \<open>Date.now()\<close> at the call. The result is the
  returned boolean and the engine afterwards. An exception is \<open>Inl\<close>; the state an
  exception leaves behind is not tracked.
\<close>

definition placeStone :: "Game \<Rightarrow> Position \<Rightarrow> int \<Rightarrow> error + (bool \<times> Game)" where
  "placeStone g p now =
     (if \<not> isValidPosition g p then Inr (False, g)
      else (case readCell (board g) (row p) (col p) of
        Inl e \<Rightarrow> Inl e
      | Inr x \<Rightarrow>
          if x \<noteq> Null then Inr (False, g)
          else if gameStatus g \<noteq> Playing then Inr (False, g)
          else
            (let historyItem = \<lparr> position = p, stone = currentPlayer g,
                                 moveNumber = int (length (history g)) + 1, timestamp = now \<rparr>
             in (case writeCell (board g) (row p) (col p) (Has (currentPlayer g)) of
                   Inl e \<Rightarrow> Inl e
                 | Inr b' \<Rightarrow>
                     (let g1 = g\<lparr> board := b', lastMove := Some p,
                                  history := history g @ [historyItem] \<rparr>;
                          g2 = incMoveCount (currentPlayer g1) g1
                      in (case checkWin g2 p of
                            Inl e \<Rightarrow> Inl e
                          | Inr (won, g3) \<Rightarrow>
                              if won
                              then Inr (True, g3\<lparr> gameStatus :=
                                     (if currentPlayer g3 = Black then BlackWin else WhiteWin) \<rparr>)
                              else (case isDraw g3 of
                                      Inl e \<Rightarrow> Inl e
                                    | Inr d \<Rightarrow>
                                        if d then Inr (True, g3\<lparr> gameStatus := Draw \<rparr>)
                                        else Inr (True, g3\<lparr> currentPlayer :=
                                               (if currentPlayer g3 = Black then White else Black) \<rparr>))))))))"

definition undo :: "Game \<Rightarrow> error + (bool \<times> Game)" where
  "undo g =
     (if length (history g) = 0 then Inr (False, g)
      else if gameStatus g \<noteq> Playing then Inr (False, g)
      else
        let lastHistoryItem = last (history g);
            history' = butlast (history g);
            pos = position lastHistoryItem;
            st = stone lastHistoryItem
        in (case writeCell (board g) (row pos) (col pos) Null of
              Inl e \<Rightarrow> Inl e
            | Inr b' \<Rightarrow>
                (let g1 = decMoveCount st (g\<lparr> history := history', board := b' \<rparr>)
                 in if length history' > 0
                    then Inr (True, g1\<lparr> lastMove := Some (position (last history')),
                                        currentPlayer := st \<rparr>)
                    else Inr (True, g1\<lparr> lastMove := None, currentPlayer := Black \<rparr>))))"

text \<open>
  Further public mutators. \<open>updatePlayerInfo\<close> overlays the given fields of a
  \<open>Partial<Player>\<close> on one player's record.
\<close>

record PartialPlayer =
  playerStone_opt :: "Stone option"
  timeUsed_opt :: "int option"
  moveCount_opt :: "int option"

definition mergePlayer :: "Player \<Rightarrow> PartialPlayer \<Rightarrow> Player" where
  "mergePlayer pl info =
     \<lparr> playerStone = (case playerStone_opt info of None \<Rightarrow> playerStone pl | Some s \<Rightarrow> s),
       timeUsed = (case timeUsed_opt info of None \<Rightarrow> timeUsed pl | Some t \<Rightarrow> t),
       moveCount = (case moveCount_opt info of None \<Rightarrow> moveCount pl | Some m \<Rightarrow> m) \<rparr>"

definition updatePlayerInfo :: "Game \<Rightarrow> Stone \<Rightarrow> PartialPlayer \<Rightarrow> Game" where
  "updatePlayerInfo g s info =
     (if s = Black
      then g\<lparr> players_black := mergePlayer (players_black g) info \<rparr>
      else g\<lparr> players_white := mergePlayer (players_white g) info \<rparr>)"

definition setGameStatus :: "Game \<Rightarrow> GameStatus \<Rightarrow> Game" where
  "setGameStatus g status = g\<lparr> gameStatus := status \<rparr>"

definition reset :: "Game \<Rightarrow> error + Game" where
  "reset g =
     (case emptyBoard (boardSize (config g)) of
        Inl e \<Rightarrow> Inl e
      | Inr b \<Rightarrow>
          Inr (g\<lparr> board := b, currentPlayer := Black, gameStatus := Playing,
                  winningPositions := None, history := [], lastMove := None,
                  players_black := (players_black g)\<lparr> timeUsed := 0, moveCount := 0 \<rparr>,
                  players_white := (players_white g)\<lparr> timeUsed := 0, moveCount := 0 \<rparr> \<rparr>))"

text \<open>
  A caller making a sequence of \<open>placeStone\<close> calls, each with its position and clock
  value; the result counts the calls that returned \<open>true\<close>.
\<close>

fun placeStones :: "Game \<Rightarrow> (Position \<times> int) list \<Rightarrow> error + (nat \<times> Game)" where
  "placeStones g [] = Inr (0, g)"
| "placeStones g ((p, now) # rest) =
     (case placeStone g p now of
        Inl e \<Rightarrow> Inl e
      | Inr (ok, g') \<Rightarrow>
          (case placeStones g' rest of
             Inl e \<Rightarrow> Inl e
           | Inr (k, g'') \<Rightarrow> Inr ((if ok then 1 else 0) + k, g'')))"

section \<open>The move selector (class AI)\<close>

text \<open>The field \<open>difficulty\<close> of the class is \<open>difficulty_ai\<close> here.\<close>

record AI =
  game :: Game
  difficulty_ai :: GameDifficulty
  aiStone :: Stone

text \<open>\<open>board.map(row => [...row])\<close>: a fresh copy with the same contents.\<close>

definition createBoardCopy :: "Board \<Rightarrow> Board" where
  "createBoardCopy b = map (\<lambda>rw. rw) b"

text \<open>
  The \<open>while\<close> loop shared by \<open>checkWinAt\<close> and \<open>evaluatePosition\<close>: it is bounded
  by \<open>board.length\<close> and only counts. The state is the counter and the cursor
  \<open>(r, c)\<close>; the result is the state when the loop exits. As in \<open>walk\<close>, the test
  that the direction is not \<open>(0, 0)\<close> makes the recursion total and holds at every
  call.
\<close>

function scan :: "Board \<Rightarrow> Stone \<Rightarrow> int \<times> int \<Rightarrow> int \<Rightarrow> int \<Rightarrow> int \<Rightarrow> int \<times> int \<times> int" where
  "scan b s (dr, dc) r c k =
     (if (dr \<noteq> 0 \<or> dc \<noteq> 0) \<and>
         r \<ge> 0 \<and> r < int (length b) \<and> c \<ge> 0 \<and> c < int (length b) \<and>
         readCell b r c = Inr (Has s)
      then scan b s (dr, dc) (r + dr) (c + dc) (k + 1)
      else (k, r, c))"
  by pat_completeness auto
termination
  by (relation "measure (\<lambda>(b, s, (dr, dc), r, c, k).
        nat ((if dr > 0 then int (length b) - r else if dr < 0 then r + 1 else 0) +
             (if dc > 0 then int (length b) - c else if dc < 0 then c + 1 else 0)))")
     (auto split: if_splits)

fun checkWinAt_loop ::
  "Board \<Rightarrow> Position \<Rightarrow> Stone \<Rightarrow> int \<Rightarrow> ((int \<times> int) \<times> (int \<times> int)) list \<Rightarrow> bool" where
  "checkWinAt_loop b p s w [] = False"
| "checkWinAt_loop b p s w (direction # rest) =
     (let count1 = fst (scan b s (fst direction)
                          (row p + fst (fst direction)) (col p + snd (fst direction)) 1);
          count2 = fst (scan b s (snd direction)
                          (row p + fst (snd direction)) (col p + snd (snd direction)) count1)
      in if count2 \<ge> w then True else checkWinAt_loop b p s w rest)"

definition checkWinAt :: "Board \<Rightarrow> Position \<Rightarrow> Stone \<Rightarrow> int \<Rightarrow> bool" where
  "checkWinAt b p s w = checkWinAt_loop b p s w directions"

text \<open>
  \<open>evaluatePosition\<close>. For one direction of an axis: the number of consecutive stones
  and whether the cell where the loop stopped is inside the board and \<open>null\<close>.
\<close>

definition evalHalf :: "Board \<Rightarrow> Position \<Rightarrow> Stone \<Rightarrow> int \<times> int \<Rightarrow> int \<times> int" where
  "evalHalf b p s d =
     (case scan b s d (row p + fst d) (col p + snd d) 0 of
        (consecutives, r, c) \<Rightarrow>
          (consecutives,
           if r \<ge> 0 \<and> r < int (length b) \<and> c \<ge> 0 \<and> c < int (length b) \<and>
              readCell b r c = Inr Null
           then 1 else 0))"

definition axisScore :: "int \<Rightarrow> int \<Rightarrow> int" where
  "axisScore count openEnds =
     (if count \<ge> 5 then 100000
      else if count = 4 then
        (if openEnds = 2 then 10000 else if openEnds = 1 then 1000 else 0)
      else if count = 3 then
        (if openEnds = 2 then 500 else if openEnds = 1 then 100 else 0)
      else if count = 2 then
        (if openEnds = 2 then 50 else if openEnds = 1 then 10 else 0)
      else 0)"

fun evaluatePosition_loop ::
  "Board \<Rightarrow> Position \<Rightarrow> Stone \<Rightarrow> int \<Rightarrow> ((int \<times> int) \<times> (int \<times> int)) list \<Rightarrow> int" where
  "evaluatePosition_loop b p s score [] = score"
| "evaluatePosition_loop b p s score (direction # rest) =
     (let h1 = evalHalf b p s (fst direction);
          h2 = evalHalf b p s (snd direction);
          count = 1 + fst h1 + fst h2;
          openEnds = snd h1 + snd h2
      in evaluatePosition_loop b p s (score + axisScore count openEnds) rest)"

definition evaluatePosition :: "Board \<Rightarrow> Position \<Rightarrow> Stone \<Rightarrow> int" where
  "evaluatePosition b p s = evaluatePosition_loop b p s 0 directions"

text \<open>
  The simulation loops. \<open>firstWinning\<close> is the loop of \<open>getNormalMove\<close> that returns at
  the first position whose simulated placement wins; it also yields the board copy it
  leaves, which the next loop of \<open>getNormalMove\<close> goes on using. \<open>allWinning\<close> is the
  loop of \<open>findWinningMoves\<close> and \<open>findBlockingMoves\<close>, which collects every such
  position.
\<close>

fun firstWinning ::
  "Board \<Rightarrow> Stone \<Rightarrow> int \<Rightarrow> Position list \<Rightarrow> error + (Position option \<times> Board)" where
  "firstWinning boardCopy s w [] = Inr (None, boardCopy)"
| "firstWinning boardCopy s w (pos # rest) =
     (case writeCell boardCopy (row pos) (col pos) (Has s) of
        Inl e \<Rightarrow> Inl e
      | Inr b1 \<Rightarrow>
          if checkWinAt b1 pos s w then Inr (Some pos, b1)
          else (case writeCell b1 (row pos) (col pos) Null of
                  Inl e \<Rightarrow> Inl e
                | Inr b2 \<Rightarrow> firstWinning b2 s w rest))"

fun allWinning ::
  "Board \<Rightarrow> Stone \<Rightarrow> int \<Rightarrow> Position list \<Rightarrow> error + Position list" where
  "allWinning boardCopy s w [] = Inr []"
| "allWinning boardCopy s w (pos # rest) =
     (case writeCell boardCopy (row pos) (col pos) (Has s) of
        Inl e \<Rightarrow> Inl e
      | Inr b1 \<Rightarrow>
          (let hit = checkWinAt b1 pos s w
           in (case writeCell b1 (row pos) (col pos) Null of
                 Inl e \<Rightarrow> Inl e
               | Inr b2 \<Rightarrow>
                   (case allWinning b2 s w rest of
                      Inl e \<Rightarrow> Inl e
                    | Inr found \<Rightarrow> Inr (if hit then pos # found else found)))))"

definition findWinningMoves :: "AI \<Rightarrow> Board \<Rightarrow> Position list \<Rightarrow> error + Position list" where
  "findWinningMoves ai b emptyPositions =
     allWinning (createBoardCopy b) (aiStone ai) (winCount (config (game ai))) emptyPositions"

definition findBlockingMoves :: "AI \<Rightarrow> Board \<Rightarrow> Position list \<Rightarrow> error + Position list" where
  "findBlockingMoves ai b emptyPositions =
     (let opponentStone = (if aiStone ai = Black then White else Black)
      in allWinning (createBoardCopy b) opponentStone (winCount (config (game ai)))
           emptyPositions)"

text \<open>
  The scoring loop of \<open>getNormalMove\<close>. \<open>board.length / 2\<close> is a division of numbers
  and is not rounded. \<open>bestScore\<close> starts at \<open>-Infinity\<close>, written \<open>None\<close>, below every
  score. \<open>bestMove\<close> starts at \<open>emptyPositions[0]\<close>, which is \<open>undefined\<close> (\<open>None\<close>)
  for an empty array.

  Scores are JavaScript numbers (binary64); here they are exact rationals, and the
  rounding of \<open>centerDistance * 0.1\<close> and of the last subtraction is not modelled. The
  loop only compares scores. The values of \<open>evaluatePosition\<close> are multiples of 10 and
  below \<open>2^53\<close>, and for a position inside the board the distance is a whole number.
  Two exact scores that differ, differ by at least \<open>1/10\<close>, far more than the rounding,
  and the doubles compare the same way. Two exact scores of different positions are equal
  with equal values and distances, and then the doubles are equal too, or with distances
  that differ by a multiple of 100, and then the doubles may differ. So the comparisons
  of the model are those of the code when all rows and columns in play are below 100;
  nothing is stated below about the scored choice on larger boards.
\<close>

definition centerDistance :: "Board \<Rightarrow> Position \<Rightarrow> rat" where
  "centerDistance b pos =
     \<bar>of_int (row pos) - of_int (int (length b)) / 2\<bar> +
     \<bar>of_int (col pos) - of_int (int (length b)) / 2\<bar>"

definition moveScore :: "Board \<Rightarrow> Stone \<Rightarrow> Stone \<Rightarrow> Position \<Rightarrow> rat" where
  "moveScore b mine theirs pos =
     0 + of_int (evaluatePosition b pos mine) - of_int (evaluatePosition b pos theirs)
       - centerDistance b pos * (1 / 10)"

fun bestMove_loop ::
  "Board \<Rightarrow> Stone \<Rightarrow> Stone \<Rightarrow> rat option \<Rightarrow> Position option \<Rightarrow> Position list \<Rightarrow> Position option" where
  "bestMove_loop b mine theirs bestScore bestMove [] = bestMove"
| "bestMove_loop b mine theirs bestScore bestMove (pos # rest) =
     (let score = moveScore b mine theirs pos
      in if (case bestScore of None \<Rightarrow> True | Some bs \<Rightarrow> score > bs)
         then bestMove_loop b mine theirs (Some score) (Some pos) rest
         else bestMove_loop b mine theirs bestScore bestMove rest)"

definition getNormalMove :: "AI \<Rightarrow> Board \<Rightarrow> Position list \<Rightarrow> error + Position option" where
  "getNormalMove ai b emptyPositions =
     (let cfg = config (game ai);
          boardCopy = createBoardCopy b
      in (case firstWinning boardCopy (aiStone ai) (winCount cfg) emptyPositions of
            Inl e \<Rightarrow> Inl e
          | Inr (Some pos, _) \<Rightarrow> Inr (Some pos)
          | Inr (None, boardCopy1) \<Rightarrow>
              (let opponentStone = (if aiStone ai = Black then White else Black)
               in (case firstWinning boardCopy1 opponentStone (winCount cfg) emptyPositions of
                     Inl e \<Rightarrow> Inl e
                   | Inr (Some pos, _) \<Rightarrow> Inr (Some pos)
                   | Inr (None, _) \<Rightarrow>
                       Inr (bestMove_loop b (aiStone ai) opponentStone None
                              (case emptyPositions of [] \<Rightarrow> None | p0 # _ \<Rightarrow> Some p0)
                              emptyPositions)))))"

definition getHardMove :: "AI \<Rightarrow> Board \<Rightarrow> Position list \<Rightarrow> error + Position option" where
  "getHardMove ai b emptyPositions =
     (case getNormalMove ai b emptyPositions of
        Inl e \<Rightarrow> Inl e
      | Inr bestMove \<Rightarrow>
          (case findWinningMoves ai b emptyPositions of
             Inl e \<Rightarrow> Inl e
           | Inr winningMoves \<Rightarrow>
               (case findBlockingMoves ai b emptyPositions of
                  Inl e \<Rightarrow> Inl e
                | Inr blockingMoves \<Rightarrow>
                    if length winningMoves > 0 then Inr (Some (winningMoves ! 0))
                    else if length blockingMoves > 0 then Inr (Some (blockingMoves ! 0))
                    else Inr bestMove)))"

text \<open>
  \<open>getNextMove\<close>; \<open>u\<close> is the value of \<open>Math.random()\<close>, with \<open>0 \<le> u < 1\<close>.
  \<open>getBoard\<close> returns a copy of the engine's board.
\<close>

definition getRandomMove :: "rat \<Rightarrow> Position list \<Rightarrow> Position option" where
  "getRandomMove u emptyPositions =
     (let randomIndex = \<lfloor>u * of_nat (length emptyPositions)\<rfloor>
      in if 0 \<le> randomIndex \<and> randomIndex < int (length emptyPositions)
         then Some (emptyPositions ! nat randomIndex) else None)"

definition getNextMove :: "AI \<Rightarrow> rat \<Rightarrow> error + Position option" where
  "getNextMove ai u =
     (let b = createBoardCopy (board (game ai))
      in (case getEmptyPositions (game ai) of
            Inl e \<Rightarrow> Inl e
          | Inr emptyPositions \<Rightarrow>
              if length emptyPositions = 0 then Inr None
              else if length emptyPositions = length b * length b
              then (let center = int (length b) div 2
                    in Inr (Some \<lparr> row = center, col = center \<rparr>))
              else (case difficulty_ai ai of
                      Easy \<Rightarrow> Inr (getRandomMove u emptyPositions)
                    | Normal \<Rightarrow> getNormalMove ai b emptyPositions
                    | Hard \<Rightarrow> getHardMove ai b emptyPositions)))"

section \<open>Well-formed engines\<close>

text \<open>
  The constructor and \<open>reset\<close> build a board of \<open>boardSize\<close> rows of \<open>boardSize\<close>
  cells, none of them \<open>undefined\<close>, and no method changes the shape or the config.
\<close>

definition wf_board :: "Board \<Rightarrow> int \<Rightarrow> bool" where
  "wf_board b n =
     (0 \<le> n \<and> int (length b) = n \<and>
      list_all (\<lambda>rw. int (length rw) = n \<and> list_all (\<lambda>x. x \<noteq> Undefined) rw) b)"

definition wf_game :: "Game \<Rightarrow> bool" where
  "wf_game g = wf_board (board g) (boardSize (config g))"

text \<open>
  The move log agrees with the rest of the state: every logged position is on the board,
  \<open>lastMove\<close> is the position of the newest entry, and with an empty log it is Black's
  turn.
\<close>

definition log_consistent :: "Game \<Rightarrow> bool" where
  "log_consistent g =
     (list_all (\<lambda>h. isValidPosition g (position h)) (history g) \<and>
      lastMove g = (if history g = [] then None else Some (position (last (history g)))) \<and>
      (history g = [] \<longrightarrow> currentPlayer g = Black))"

section \<open>Vocabulary of the properties\<close>

text \<open>The cell at \<open>(r, c)\<close> is inside the \<open>n \<times> n\<close> grid and holds \<open>v\<close>.\<close>

definition cellIs :: "Board \<Rightarrow> int \<Rightarrow> Cell \<Rightarrow> int \<Rightarrow> int \<Rightarrow> bool" where
  "cellIs b n v r c = (0 \<le> r \<and> r < n \<and> 0 \<le> c \<and> c < n \<and> readCell b r c = Inr v)"

text \<open>The four axes: horizontal, vertical, main diagonal, anti-diagonal.\<close>

definition axes :: "(int \<times> int) list" where
  "axes = [(0, 1), (1, 0), (1, 1), (1, -1)]"

text \<open>The position \<open>k\<close> steps from \<open>p\<close> along \<open>d\<close>.\<close>

definition shift :: "Position \<Rightarrow> int \<times> int \<Rightarrow> int \<Rightarrow> Position" where
  "shift p d k = \<lparr> row = row p + k * fst d, col = col p + k * snd d \<rparr>"

text \<open>
  Along axis \<open>d\<close> there is a contiguous run of at least \<open>w\<close> cells holding \<open>s\<close> that
  passes through \<open>p\<close>: the steps \<open>lo..hi\<close> around \<open>p\<close>, \<open>lo \<le> 0 \<le> hi\<close>.
\<close>

definition runThrough :: "Board \<Rightarrow> int \<Rightarrow> Stone \<Rightarrow> Position \<Rightarrow> int \<times> int \<Rightarrow> int \<Rightarrow> bool" where
  "runThrough b n s p d w =
     (\<exists>lo\<in>{- n..0}. \<exists>hi\<in>{0..n}. w \<le> hi - lo + 1 \<and>
        (\<forall>k\<in>{lo..hi}. cellIs b n (Has s) (row (shift p d k)) (col (shift p d k))))"

text \<open>
  The positions of \<open>line\<close> are, without repetition, exactly the steps \<open>lo..hi\<close> from
  \<open>p\<close> along \<open>d\<close> with \<open>lo \<le> 0 \<le> hi\<close>: colinear, adjacent, no gap, \<open>p\<close> among them.
\<close>

definition contiguousLine :: "Position list \<Rightarrow> Position \<Rightarrow> int \<times> int \<Rightarrow> bool" where
  "contiguousLine line p d =
     (distinct line \<and>
      (\<exists>lo\<in>{- int (length line)..0}. \<exists>hi\<in>{0..int (length line)}.
         set line = shift p d ` {lo..hi}))"

definition winStatus :: "Stone \<Rightarrow> GameStatus" where
  "winStatus s = (if s = Black then BlackWin else WhiteWin)"

definition isStone :: "Cell \<Rightarrow> bool" where
  "isStone x = (case x of Has _ \<Rightarrow> True | _ \<Rightarrow> False)"

text \<open>Every cell of the \<open>n \<times> n\<close> grid holds a stone.\<close>

definition boardFull :: "Board \<Rightarrow> int \<Rightarrow> bool" where
  "boardFull b n =
     (\<forall>r\<in>{0..n - 1}. \<forall>c\<in>{0..n - 1}.
        (case readCell b r c of Inr x \<Rightarrow> isStone x | Inl _ \<Rightarrow> False))"

text \<open>The number of cells that are not empty.\<close>

definition nonEmptyCount :: "Board \<Rightarrow> nat" where
  "nonEmptyCount b = length (filter (\<lambda>x. x \<noteq> Null) (concat b))"

text \<open>
  The engine once a legal placement has written its stone, its log entry and its move
  counter, before the outcome of the move is decided.
\<close>

definition stonePlaced :: "Game \<Rightarrow> Position \<Rightarrow> int \<Rightarrow> Game" where
  "stonePlaced g p now =
     incMoveCount (currentPlayer g)
       (g\<lparr> board := (board g)[nat (row p) := (board g ! nat (row p))[nat (col p) := Has (currentPlayer g)]],
           lastMove := Some p,
           history := history g @
             [\<lparr> position = p, stone = currentPlayer g,
                moveNumber = int (length (history g)) + 1, timestamp = now \<rparr>] \<rparr>)"

text \<open>
  What every sequence of placements keeps true: the shape of the board, as many stones
  on the board as entries in the log, and, while the game is on, the turn given by the
  parity of the log.
\<close>

definition turn_inv :: "Game \<Rightarrow> bool" where
  "turn_inv g =
     (wf_game g \<and> nonEmptyCount (board g) = length (history g) \<and>
      (gameStatus g = Playing \<longrightarrow>
         currentPlayer g = (if even (length (history g)) then Black else White)))"

text \<open>
  The engines an application can reach through the methods of the class: built by the
  constructor and changed by \<open>placeStone\<close>, \<open>undo\<close>, \<open>reset\<close>,
  \<open>updatePlayerInfo\<close>, and \<open>setGameStatus\<close> used as documented, to pause a game that
  is on and to resume a paused one.
\<close>

inductive reachable :: "Game \<Rightarrow> bool" where
  constructed: "new_Game pc = Inr g \<Longrightarrow> reachable g"
| placed: "reachable g \<Longrightarrow> placeStone g p now = Inr (ok, g') \<Longrightarrow> reachable g'"
| undone: "reachable g \<Longrightarrow> undo g = Inr (ok, g') \<Longrightarrow> reachable g'"
| was_reset: "reachable g \<Longrightarrow> reset g = Inr g' \<Longrightarrow> reachable g'"
| paused: "reachable g \<Longrightarrow> gameStatus g = Playing \<Longrightarrow> reachable (setGameStatus g Paused)"
| resumed: "reachable g \<Longrightarrow> gameStatus g = Paused \<Longrightarrow> reachable (setGameStatus g Playing)"
| informed: "reachable g \<Longrightarrow> reachable (updatePlayerInfo g s info)"

text \<open>What holds of every such engine.\<close>

definition engine_inv :: "Game \<Rightarrow> bool" where
  "engine_inv g =
     (wf_game g \<and> log_consistent g \<and>
      (gameStatus g \<noteq> BlackWin \<and> gameStatus g \<noteq> WhiteWin \<longrightarrow> winningPositions g = None))"

section \<open>Example engines\<close>

text \<open>A 3 \<times> 3 game with three in a row to win, fresh and after four placements.\<close>

definition cfg3 :: PartialGameConfig where
  "cfg3 = \<lparr> boardSize_opt = Some 3, winCount_opt = Some 3, gameMode_opt = None,
             difficulty_opt = None, timeLimit_opt = None \<rparr>"

definition fresh3 :: Game where
  "fresh3 =
     \<lparr> board = [[Null, Null, Null], [Null, Null, Null], [Null, Null, Null]],
       currentPlayer = Black, gameStatus = Playing, winningPositions = None,
       history = [], lastMove = None,
       config = \<lparr> boardSize = 3, winCount = 3, gameMode = PvP, difficulty = Some Easy,
                  timeLimit = None \<rparr>,
       players_black = \<lparr> playerStone = Black, timeUsed = 0, moveCount = 0 \<rparr>,
       players_white = \<lparr> playerStone = White, timeUsed = 0, moveCount = 0 \<rparr> \<rparr>"

definition moves3 :: "(Position \<times> int) list" where
  "moves3 = [(\<lparr> row = 0, col = 0 \<rparr>, 1), (\<lparr> row = 1, col = 0 \<rparr>, 2),
             (\<lparr> row = 0, col = 1 \<rparr>, 3), (\<lparr> row = 1, col = 1 \<rparr>, 4)]"

definition almost3 :: Game where
  "almost3 =
     fresh3\<lparr> board := [[Has Black, Has Black, Null], [Has White, Has White, Null],
                        [Null, Null, Null]],
              history :=
                [\<lparr> position = \<lparr> row = 0, col = 0 \<rparr>, stone = Black, moveNumber = 1, timestamp = 1 \<rparr>,
                 \<lparr> position = \<lparr> row = 1, col = 0 \<rparr>, stone = White, moveNumber = 2, timestamp = 2 \<rparr>,
                 \<lparr> position = \<lparr> row = 0, col = 1 \<rparr>, stone = Black, moveNumber = 3, timestamp = 3 \<rparr>,
                 \<lparr> position = \<lparr> row = 1, col = 1 \<rparr>, stone = White, moveNumber = 4, timestamp = 4 \<rparr>],
              lastMove := Some \<lparr> row = 1, col = 1 \<rparr>,
              players_black := \<lparr> playerStone = Black, timeUsed = 0, moveCount = 2 \<rparr>,
              players_white := \<lparr> playerStone = White, timeUsed = 0, moveCount = 2 \<rparr> \<rparr>"

text \<open>Black completes the top row.\<close>

definition won3 :: Game where
  "won3 =
     almost3\<lparr> board := [[Has Black, Has Black, Has Black], [Has White, Has White, Null],
                         [Null, Null, Null]],
               gameStatus := BlackWin,
               winningPositions :=
                 Some [\<lparr> row = 0, col = 2 \<rparr>, \<lparr> row = 0, col = 1 \<rparr>, \<lparr> row = 0, col = 0 \<rparr>],
               history := history almost3 @
                 [\<lparr> position = \<lparr> row = 0, col = 2 \<rparr>, stone = Black, moveNumber = 5, timestamp = 5 \<rparr>],
               lastMove := Some \<lparr> row = 0, col = 2 \<rparr>,
               players_black := \<lparr> playerStone = Black, timeUsed = 0, moveCount = 3 \<rparr> \<rparr>"

text \<open>Black plays the corner instead and the game goes on.\<close>

definition quiet3 :: Game where
  "quiet3 =
     almost3\<lparr> board := [[Has Black, Has Black, Null], [Has White, Has White, Null],
                         [Null, Null, Has Black]],
               currentPlayer := White,
               history := history almost3 @
                 [\<lparr> position = \<lparr> row = 2, col = 2 \<rparr>, stone = Black, moveNumber = 5, timestamp = 5 \<rparr>],
               lastMove := Some \<lparr> row = 2, col = 2 \<rparr>,
               players_black := \<lparr> playerStone = Black, timeUsed = 0, moveCount = 3 \<rparr> \<rparr>"

text \<open>
  The default game (15 \<times> 15, five to win) and the line of play
  (7,7) (0,0) (7,8) (1,1) (7,9) (2,2) (7,10) (3,3), after which Black completes five
  at (7,11).
\<close>

definition cfgDefault :: PartialGameConfig where
  "cfgDefault = \<lparr> boardSize_opt = None, winCount_opt = None, gameMode_opt = None,
                   difficulty_opt = None, timeLimit_opt = None \<rparr>"

definition freshDefault :: Game where
  "freshDefault =
     \<lparr> board = replicate 15 (replicate 15 Null),
       currentPlayer = Black, gameStatus = Playing, winningPositions = None,
       history = [], lastMove = None,
       config = \<lparr> boardSize = 15, winCount = 5, gameMode = PvP, difficulty = Some Easy,
                  timeLimit = None \<rparr>,
       players_black = \<lparr> playerStone = Black, timeUsed = 0, moveCount = 0 \<rparr>,
       players_white = \<lparr> playerStone = White, timeUsed = 0, moveCount = 0 \<rparr> \<rparr>"

definition scenarioMoves :: "(Position \<times> int) list" where
  "scenarioMoves =
     [(\<lparr> row = 7, col = 7 \<rparr>, 1), (\<lparr> row = 0, col = 0 \<rparr>, 2),
      (\<lparr> row = 7, col = 8 \<rparr>, 3), (\<lparr> row = 1, col = 1 \<rparr>, 4),
      (\<lparr> row = 7, col = 9 \<rparr>, 5), (\<lparr> row = 2, col = 2 \<rparr>, 6),
      (\<lparr> row = 7, col = 10 \<rparr>, 7), (\<lparr> row = 3, col = 3 \<rparr>, 8)]"

definition scenarioBefore :: Game where
  "scenarioBefore =
     freshDefault\<lparr>
       board :=
         [Has White # replicate 14 Null,
          Null # Has White # replicate 13 Null,
          Null # Null # Has White # replicate 12 Null,
          Null # Null # Null # Has White # replicate 11 Null,
          replicate 15 Null, replicate 15 Null, replicate 15 Null,
          replicate 7 Null @ [Has Black, Has Black, Has Black, Has Black] @ replicate 4 Null,
          replicate 15 Null, replicate 15 Null, replicate 15 Null, replicate 15 Null,
          replicate 15 Null, replicate 15 Null, replicate 15 Null],
       history :=
         map (\<lambda>(k, (p, now)). \<lparr> position = p, stone = (if even k then Black else White),
                                 moveNumber = int k + 1, timestamp = now \<rparr>)
             (enumerate 0 scenarioMoves),
       lastMove := Some \<lparr> row = 3, col = 3 \<rparr>,
       players_black := \<lparr> playerStone = Black, timeUsed = 0, moveCount = 4 \<rparr>,
       players_white := \<lparr> playerStone = White, timeUsed = 0, moveCount = 4 \<rparr> \<rparr>"

definition scenarioAfter :: Game where
  "scenarioAfter =
     scenarioBefore\<lparr>
       board := (board scenarioBefore)
         [7 := replicate 7 Null @ [Has Black, Has Black, Has Black, Has Black, Has Black] @
               replicate 3 Null],
       gameStatus := BlackWin,
       winningPositions :=
         Some [\<lparr> row = 7, col = 11 \<rparr>, \<lparr> row = 7, col = 10 \<rparr>, \<lparr> row = 7, col = 9 \<rparr>,
               \<lparr> row = 7, col = 8 \<rparr>, \<lparr> row = 7, col = 7 \<rparr>],
       history := history scenarioBefore @
         [\<lparr> position = \<lparr> row = 7, col = 11 \<rparr>, stone = Black, moveNumber = 9, timestamp = 9 \<rparr>],
       lastMove := Some \<lparr> row = 7, col = 11 \<rparr>,
       players_black := \<lparr> playerStone = Black, timeUsed = 0, moveCount = 5 \<rparr> \<rparr>"

text \<open>A 3 \<times> 3 board with five to win, filled in reading order.\<close>

definition cfg35 :: PartialGameConfig where
  "cfg35 = \<lparr> boardSize_opt = Some 3, winCount_opt = Some 5, gameMode_opt = None,
              difficulty_opt = None, timeLimit_opt = None \<rparr>"

definition fresh35 :: Game where
  "fresh35 = fresh3\<lparr> config := (config fresh3)\<lparr> winCount := 5 \<rparr> \<rparr>"

definition moves35 :: "(Position \<times> int) list" where
  "moves35 =
     [(\<lparr> row = 0, col = 0 \<rparr>, 1), (\<lparr> row = 0, col = 1 \<rparr>, 2), (\<lparr> row = 0, col = 2 \<rparr>, 3),
      (\<lparr> row = 1, col = 0 \<rparr>, 4), (\<lparr> row = 1, col = 1 \<rparr>, 5), (\<lparr> row = 1, col = 2 \<rparr>, 6),
      (\<lparr> row = 2, col = 0 \<rparr>, 7), (\<lparr> row = 2, col = 1 \<rparr>, 8)]"

definition nearlyFull35 :: Game where
  "nearlyFull35 =
     fresh35\<lparr>
       board := [[Has Black, Has White, Has Black], [Has White, Has Black, Has White],
                 [Has Black, Has White, Null]],
       history :=
         map (\<lambda>(k, (p, now)). \<lparr> position = p, stone = (if even k then Black else White),
                                 moveNumber = int k + 1, timestamp = now \<rparr>)
             (enumerate 0 moves35),
       lastMove := Some \<lparr> row = 2, col = 1 \<rparr>,
       players_black := \<lparr> playerStone = Black, timeUsed = 0, moveCount = 4 \<rparr>,
       players_white := \<lparr> playerStone = White, timeUsed = 0, moveCount = 4 \<rparr> \<rparr>"

definition drawn35 :: Game where
  "drawn35 =
     nearlyFull35\<lparr>
       board := [[Has Black, Has White, Has Black], [Has White, Has Black, Has White],
                 [Has Black, Has White, Has Black]],
       gameStatus := Draw,
       history := history nearlyFull35 @
         [\<lparr> position = \<lparr> row = 2, col = 2 \<rparr>, stone = Black, moveNumber = 9, timestamp = 9 \<rparr>],
       lastMove := Some \<lparr> row = 2, col = 2 \<rparr>,
       players_black := \<lparr> playerStone = Black, timeUsed = 0, moveCount = 5 \<rparr> \<rparr>"

text \<open>A 2 \<times> 2 board with five to win.\<close>

definition cfg25 :: PartialGameConfig where
  "cfg25 = \<lparr> boardSize_opt = Some 2, winCount_opt = Some 5, gameMode_opt = None,
              difficulty_opt = None, timeLimit_opt = None \<rparr>"

definition fresh25 :: Game where
  "fresh25 =
     \<lparr> board = [[Null, Null], [Null, Null]],
       currentPlayer = Black, gameStatus = Playing, winningPositions = None,
       history = [], lastMove = None,
       config = \<lparr> boardSize = 2, winCount = 5, gameMode = PvP, difficulty = Some Easy,
                  timeLimit = None \<rparr>,
       players_black = \<lparr> playerStone = Black, timeUsed = 0, moveCount = 0 \<rparr>,
       players_white = \<lparr> playerStone = White, timeUsed = 0, moveCount = 0 \<rparr> \<rparr>"

section \<open>The position evaluator, as specified\<close>

text \<open>
  The description of \<open>evaluatePosition\<close> in words, written down independently of the
  code: cells are in bounds when both coordinates are below the board's length; a
  direction's consecutive count is the number of cells matching the stone met walking
  outward from the position, one step at a time, before the first cell that does not
  match; its far end is the cell just beyond them, and it is open when that cell is in
  bounds and empty.
\<close>

definition inBounds :: "Board \<Rightarrow> Position \<Rightarrow> bool" where
  "inBounds b q =
     (0 \<le> row q \<and> row q < int (length b) \<and> 0 \<le> col q \<and> col q < int (length b))"

definition matchesAt :: "Board \<Rightarrow> Stone \<Rightarrow> Position \<Rightarrow> bool" where
  "matchesAt b s q = (inBounds b q \<and> readCell b (row q) (col q) = Inr (Has s))"

definition emptyAt :: "Board \<Rightarrow> Position \<Rightarrow> bool" where
  "emptyAt b q = (inBounds b q \<and> readCell b (row q) (col q) = Inr Null)"

definition opposite :: "int \<times> int \<Rightarrow> int \<times> int" where
  "opposite d = (- fst d, - snd d)"

definition spec_consecutive :: "Board \<Rightarrow> Stone \<Rightarrow> Position \<Rightarrow> int \<times> int \<Rightarrow> int" where
  "spec_consecutive b s p d =
     int (length (takeWhile (\<lambda>k. matchesAt b s (shift p d k)) [1..int (length b)]))"

definition spec_openEnd :: "Board \<Rightarrow> Stone \<Rightarrow> Position \<Rightarrow> int \<times> int \<Rightarrow> int" where
  "spec_openEnd b s p d =
     (if emptyAt b (shift p d (spec_consecutive b s p d + 1)) then 1 else 0)"

definition spec_runLength :: "Board \<Rightarrow> Stone \<Rightarrow> Position \<Rightarrow> int \<times> int \<Rightarrow> int" where
  "spec_runLength b s p d =
     1 + spec_consecutive b s p d + spec_consecutive b s p (opposite d)"

definition spec_openEnds :: "Board \<Rightarrow> Stone \<Rightarrow> Position \<Rightarrow> int \<times> int \<Rightarrow> int" where
  "spec_openEnds b s p d = spec_openEnd b s p d + spec_openEnd b s p (opposite d)"

definition spec_table :: "int \<Rightarrow> int \<Rightarrow> int" where
  "spec_table run opens =
     (if run \<ge> 5 then 100000
      else if run = 4 \<and> opens = 2 then 10000
      else if run = 4 \<and> opens = 1 then 1000
      else if run = 3 \<and> opens = 2 then 500
      else if run = 3 \<and> opens = 1 then 100
      else if run = 2 \<and> opens = 2 then 50
      else if run = 2 \<and> opens = 1 then 10
      else 0)"

definition spec_positionValue :: "Board \<Rightarrow> Position \<Rightarrow> Stone \<Rightarrow> int" where
  "spec_positionValue b p s =
     sum_list (map (\<lambda>d. spec_table (spec_runLength b s p d) (spec_openEnds b s p d)) axes)"

section \<open>Vocabulary for the move selector\<close>

text \<open>The board with a stone of \<open>s\<close> written at \<open>p\<close>, for a position inside the board.\<close>

definition withStone :: "Board \<Rightarrow> Position \<Rightarrow> Stone \<Rightarrow> Board" where
  "withStone b p s = b[nat (row p) := (b ! nat (row p))[nat (col p) := Has s]]"

text \<open>
  The priority order of the tiers over the positions \<open>ps\<close> in scan order, for the mover
  \<open>s\<close> and connection length \<open>w\<close>: the first position where the mover's stone passes
  the win test; else the first position where the opponent's stone passes it; else the
  fallback.
\<close>

definition priorityMove ::
  "Board \<Rightarrow> Stone \<Rightarrow> int \<Rightarrow> Position list \<Rightarrow> Position option \<Rightarrow> Position option" where
  "priorityMove b s w ps fallback =
     (case find (\<lambda>p. checkWinAt (withStone b p s) p s w) ps of
        Some pos \<Rightarrow> Some pos
      | None \<Rightarrow>
          (case find (\<lambda>p. checkWinAt (withStone b p (otherStone s)) p (otherStone s) w) ps of
             Some pos \<Rightarrow> Some pos
           | None \<Rightarrow> fallback))"

text \<open>
  The first position of \<open>ps\<close> whose score for the mover \<open>s\<close> no position of \<open>ps\<close>
  exceeds.
\<close>

definition firstMaximum :: "Board \<Rightarrow> Stone \<Rightarrow> Position list \<Rightarrow> Position option" where
  "firstMaximum b s ps =
     find (\<lambda>p. \<forall>q\<in>set ps. moveScore b s (otherStone s) q \<le> moveScore b s (otherStone s) p) ps"

section \<open>The scored fallback, as specified\<close>

text \<open>
  The score of the fallback of the normal tier in the words of the specification: the
  distance is the Manhattan distance to the centre cell
  \<open>(boardSize div 2, boardSize div 2)\<close>.
\<close>

definition spec_centerDistance :: "Board \<Rightarrow> Position \<Rightarrow> int" where
  "spec_centerDistance b pos =
     \<bar>row pos - int (length b) div 2\<bar> + \<bar>col pos - int (length b) div 2\<bar>"

definition spec_score :: "Board \<Rightarrow> Stone \<Rightarrow> Position \<Rightarrow> rat" where
  "spec_score b mover pos =
     of_int (spec_positionValue b pos mover) - of_int (spec_positionValue b pos (otherStone mover))
       - (1 / 10) * of_int (spec_centerDistance b pos)"

section \<open>Example selectors\<close>

text \<open>The default game after Black's first stone on the centre, White played by the normal tier.\<close>

definition afterCenter :: Game where
  "afterCenter =
     freshDefault\<lparr>
       board := (replicate 15 (replicate 15 Null))[7 := (replicate 15 Null)[7 := Has Black]],
       currentPlayer := White,
       history := [\<lparr> position = \<lparr> row = 7, col = 7 \<rparr>, stone = Black, moveNumber = 1, timestamp = 1 \<rparr>],
       lastMove := Some \<lparr> row = 7, col = 7 \<rparr>,
       players_black := \<lparr> playerStone = Black, timeUsed = 0, moveCount = 1 \<rparr> \<rparr>"

definition aiNormal :: AI where
  "aiNormal = \<lparr> game = afterCenter, difficulty_ai = Normal, aiStone = White \<rparr>"

text \<open>The same on the 3 \<times> 3 board.\<close>

definition center3 :: Game where
  "center3 =
     fresh3\<lparr>
       board := [[Null, Null, Null], [Null, Has Black, Null], [Null, Null, Null]],
       currentPlayer := White,
       history := [\<lparr> position = \<lparr> row = 1, col = 1 \<rparr>, stone = Black, moveNumber = 1, timestamp = 1 \<rparr>],
       lastMove := Some \<lparr> row = 1, col = 1 \<rparr>,
       players_black := \<lparr> playerStone = Black, timeUsed = 0, moveCount = 1 \<rparr> \<rparr>"

definition aiNormal3 :: AI where
  "aiNormal3 = \<lparr> game = center3, difficulty_ai = Normal, aiStone = White \<rparr>"

definition empties3 :: "Position list" where
  "empties3 =
     [\<lparr> row = 0, col = 0 \<rparr>, \<lparr> row = 0, col = 1 \<rparr>, \<lparr> row = 0, col = 2 \<rparr>,
      \<lparr> row = 1, col = 0 \<rparr>, \<lparr> row = 1, col = 2 \<rparr>,
      \<lparr> row = 2, col = 0 \<rparr>, \<lparr> row = 2, col = 1 \<rparr>, \<lparr> row = 2, col = 2 \<rparr>]"

text \<open>
  White to move in the 3 \<times> 3 game after five placements: (1,2) completes White's row,
  and (0,2), earlier in the scan, would only stop Black's.
\<close>

definition aiHardWhite3 :: AI where
  "aiHardWhite3 = \<lparr> game = quiet3, difficulty_ai = Hard, aiStone = White \<rparr>"

definition emptiesQuiet3 :: "Position list" where
  "emptiesQuiet3 =
     [\<lparr> row = 0, col = 2 \<rparr>, \<lparr> row = 1, col = 2 \<rparr>,
      \<lparr> row = 2, col = 0 \<rparr>, \<lparr> row = 2, col = 1 \<rparr>]"

section \<open>Lemmas about the engine\<close>

lemma wf_board_readCell:
  assumes "wf_board b n" "0 \<le> r" "r < n" "0 \<le> c" "c < n"
  shows "readCell b r c = Inr (b ! nat r ! nat c)" and "b ! nat r ! nat c \<noteq> Undefined"
proof -
  from assms have r: "nat r < length b" and r': "r < int (length b)"
    by (auto simp: wf_board_def)
  with assms have rw: "int (length (b ! nat r)) = n" "list_all (\<lambda>x. x \<noteq> Undefined) (b ! nat r)"
    by (auto simp: wf_board_def list_all_length)
  with assms have c: "nat c < length (b ! nat r)" and c': "c < int (length (b ! nat r))"
    by auto
  show "readCell b r c = Inr (b ! nat r ! nat c)"
    using assms(2,4) r' c' by (simp add: readCell_def Let_def)
  show "b ! nat r ! nat c \<noteq> Undefined"
    using rw(2) c by (simp add: list_all_length)
qed

lemma steps_Suc:
  "map f [0..<Suc m] = f 0 # map (\<lambda>k. f (Suc k)) [0..<m]"
  by (simp only: upt_conv_Cons[of 0 "Suc m"] zero_less_Suc if_True list.map map_Suc_upt[symmetric] map_map comp_def)

lemma walk_char:
  assumes "wf_board b n" "fst d \<noteq> 0 \<or> snd d \<noteq> 0"
  shows "\<exists>m::nat.
           walk b n v d r c =
             Inr (map (\<lambda>k. \<lparr> row = r + int k * fst d, col = c + int k * snd d \<rparr>) [0..<m]) \<and>
           (\<forall>k<m. cellIs b n v (r + int k * fst d) (c + int k * snd d)) \<and>
           \<not> cellIs b n v (r + int m * fst d) (c + int m * snd d)"
  using assms
proof (induction b n v d r c rule: walk.induct)
  case (1 b n v dr dc r c)
  show ?case
  proof (cases "cellIs b n v r c")
    case False
    have "walk b n v (dr, dc) r c = Inr []"
    proof (cases "r \<ge> 0 \<and> r < n \<and> c \<ge> 0 \<and> c < n")
      case True
      then obtain x where x: "readCell b r c = Inr x"
        using wf_board_readCell(1)[OF "1.prems"(1)] by blast
      with False True have "x \<noteq> v" by (auto simp: cellIs_def)
      with x show ?thesis by simp
    next
      case False
      then show ?thesis by auto
    qed
    with False show ?thesis by (intro exI[of _ 0]) simp
  next
    case True
    then have inb: "r \<ge> 0 \<and> r < n \<and> c \<ge> 0 \<and> c < n" and rd: "readCell b r c = Inr v"
      by (auto simp: cellIs_def)
    from "1.prems" have nz: "dr \<noteq> 0 \<or> dc \<noteq> 0" by simp
    from "1.IH"[OF _ rd refl "1.prems"] nz inb
    obtain m where m:
      "walk b n v (dr, dc) (r + dr) (c + dc) =
         Inr (map (\<lambda>k. \<lparr> row = r + dr + int k * dr, col = c + dc + int k * dc \<rparr>) [0..<m])"
      "\<forall>k<m. cellIs b n v (r + dr + int k * dr) (c + dc + int k * dc)"
      "\<not> cellIs b n v (r + dr + int m * dr) (c + dc + int m * dc)"
      by auto
    have e: "r + dr + int k * dr = r + int (Suc k) * dr" "c + dc + int k * dc = c + int (Suc k) * dc" for k
      by (simp_all add: algebra_simps)
    have w: "walk b n v (dr, dc) r c =
          Inr (\<lparr> row = r, col = c \<rparr> #
               map (\<lambda>k. \<lparr> row = r + dr + int k * dr, col = c + dc + int k * dc \<rparr>) [0..<m])"
      using nz inb rd m(1) by simp
    have "walk b n v (dr, dc) r c =
          Inr (map (\<lambda>k. \<lparr> row = r + int k * fst (dr, dc), col = c + int k * snd (dr, dc) \<rparr>) [0..<Suc m])"
      unfolding w steps_Suc by (simp add: e del: upt_Suc)
    moreover have "\<forall>k<Suc m. cellIs b n v (r + int k * fst (dr, dc)) (c + int k * snd (dr, dc))"
    proof (intro allI impI)
      fix k assume "k < Suc m"
      show "cellIs b n v (r + int k * fst (dr, dc)) (c + int k * snd (dr, dc))"
      proof (cases k)
        case 0 with True show ?thesis by simp
      next
        case (Suc j)
        with \<open>k < Suc m\<close> m(2) have "cellIs b n v (r + dr + int j * dr) (c + dc + int j * dc)" by auto
        then show ?thesis unfolding e Suc by simp
      qed
    qed
    moreover have "\<not> cellIs b n v (r + int (Suc m) * fst (dr, dc)) (c + int (Suc m) * snd (dr, dc))"
      using m(3) unfolding e by simp
    ultimately show ?thesis by blast
  qed
qed

lemma shift_sel [simp]:
  "row (shift p d k) = row p + k * fst d" "col (shift p d k) = col p + k * snd d"
  by (simp_all add: shift_def)

lemma shift_zero [simp]: "shift p d 0 = (p::Position)"
  by (simp add: shift_def)

lemma shift_inj:
  assumes "fst d \<noteq> 0 \<or> snd d \<noteq> 0" "shift p d j = shift p d k"
  shows "j = k"
proof -
  from assms(2) have "row (shift p d j) = row (shift p d k)" "col (shift p d j) = col (shift p d k)"
    by simp_all
  then have "j * fst d = k * fst d" "j * snd d = k * snd d" by simp_all
  with assms(1) show ?thesis by auto
qed

lemma axis_char:
  assumes wf: "wf_board b n" and nz: "fst d \<noteq> 0 \<or> snd d \<noteq> 0"
    and here: "cellIs b n v (row p) (col p)"
  shows "\<exists>m1 m2::nat.
           axisPositions b n v p (d, (- fst d, - snd d)) =
             Inr (p # map (\<lambda>k. shift p d (int (Suc k))) [0..<m1] @
                      map (\<lambda>k. shift p d (- int (Suc k))) [0..<m2]) \<and>
           (\<forall>k. - int m2 \<le> k \<and> k \<le> int m1 \<longrightarrow>
                cellIs b n v (row (shift p d k)) (col (shift p d k))) \<and>
           \<not> cellIs b n v (row (shift p d (int m1 + 1))) (col (shift p d (int m1 + 1))) \<and>
           \<not> cellIs b n v (row (shift p d (- int m2 - 1))) (col (shift p d (- int m2 - 1)))"
proof -
  let ?d' = "(- fst d, - snd d)"
  from walk_char[OF wf nz, of v "row p + fst d" "col p + snd d"]
  obtain m1 where m1:
    "walk b n v d (row p + fst d) (col p + snd d) =
       Inr (map (\<lambda>k. \<lparr> row = row p + fst d + int k * fst d, col = col p + snd d + int k * snd d \<rparr>) [0..<m1])"
    "\<forall>k<m1. cellIs b n v (row p + fst d + int k * fst d) (col p + snd d + int k * snd d)"
    "\<not> cellIs b n v (row p + fst d + int m1 * fst d) (col p + snd d + int m1 * snd d)"
    by blast
  have nz': "fst ?d' \<noteq> 0 \<or> snd ?d' \<noteq> 0" using nz by simp
  from walk_char[OF wf nz', of v "row p + fst ?d'" "col p + snd ?d'"]
  obtain m2 where m2:
    "walk b n v ?d' (row p - fst d) (col p - snd d) =
       Inr (map (\<lambda>k. \<lparr> row = row p - fst d + int k * (- fst d), col = col p - snd d + int k * (- snd d) \<rparr>) [0..<m2])"
    "\<forall>k<m2. cellIs b n v (row p - fst d + int k * (- fst d)) (col p - snd d + int k * (- snd d))"
    "\<not> cellIs b n v (row p - fst d + int m2 * (- fst d)) (col p - snd d + int m2 * (- snd d))"
    by auto
  have e1: "\<lparr> row = row p + fst d + int k * fst d, col = col p + snd d + int k * snd d \<rparr>
            = shift p d (int (Suc k))" for k
    by (simp add: shift_def algebra_simps)
  have e2: "\<lparr> row = row p - fst d + int k * (- fst d), col = col p - snd d + int k * (- snd d) \<rparr>
            = shift p d (- int (Suc k))" for k
    by (simp add: shift_def algebra_simps)
  have pp: "\<lparr> row = row p, col = col p \<rparr> = p" by simp
  have A: "axisPositions b n v p (d, ?d') =
             Inr (p # map (\<lambda>k. shift p d (int (Suc k))) [0..<m1] @
                      map (\<lambda>k. shift p d (- int (Suc k))) [0..<m2])"
    using m1(1) m2(1) unfolding e1 e2 by (simp add: axisPositions_def pp)
  have B: "cellIs b n v (row (shift p d k)) (col (shift p d k))"
    if k: "- int m2 \<le> k" "k \<le> int m1" for k
  proof -
    consider "k = 0" | "k > 0" | "k < 0" by linarith
    then show ?thesis
    proof cases
      case 1 with here show ?thesis by simp
    next
      case 2
      then obtain j where j: "k = int (Suc j)" by (metis Suc_pred' nat_0_less_mult_iff of_nat_0_less_iff pos_int_cases zero_less_Suc mult.commute mult_2 nat_int)
      with k have "j < m1" by simp
      with m1(2) have "cellIs b n v (row p + fst d + int j * fst d) (col p + snd d + int j * snd d)" by simp
      then show ?thesis unfolding j by (simp add: algebra_simps)
    next
      case 3
      then have "- k > 0" by simp
      then obtain j where j: "- k = int (Suc j)" by (metis Suc_pred' of_nat_0_less_iff pos_int_cases)
      with k have "j < m2" by simp
      with m2(2) have "cellIs b n v (row p - fst d + int j * (- fst d)) (col p - snd d + int j * (- snd d))" by simp
      moreover from j have kk: "k = - int (Suc j)" by simp
      moreover have "row p - fst d + int j * (- fst d) = row p + (- int (Suc j)) * fst d"
        "col p - snd d + int j * (- snd d) = col p + (- int (Suc j)) * snd d"
        by (simp_all add: algebra_simps)
      ultimately show ?thesis unfolding shift_sel by (simp only:)
    qed
  qed
  have C: "\<not> cellIs b n v (row (shift p d (int m1 + 1))) (col (shift p d (int m1 + 1)))"
    using m1(3) by (simp add: algebra_simps)
  have D: "\<not> cellIs b n v (row (shift p d (- int m2 - 1))) (col (shift p d (- int m2 - 1)))"
    using m2(3) by (simp add: algebra_simps)
  from A B C D show ?thesis by blast
qed

lemma cellIs_step_bound:
  assumes nz: "fst d \<noteq> 0 \<or> snd d \<noteq> 0"
    and a: "cellIs b n v (row p) (col p)"
    and c: "cellIs b n v (row (shift p d k)) (col (shift p d k))"
  shows "\<bar>k\<bar> < n"
proof -
  from a c have r: "0 \<le> row p" "row p < n" "0 \<le> row p + k * fst d" "row p + k * fst d < n"
    and cc: "0 \<le> col p" "col p < n" "0 \<le> col p + k * snd d" "col p + k * snd d < n"
    by (simp_all add: cellIs_def)
  from r have 1: "\<bar>k * fst d\<bar> < n" by linarith
  from cc have 2: "\<bar>k * snd d\<bar> < n" by linarith
  from nz show ?thesis
  proof
    assume "fst d \<noteq> 0"
    then have "1 \<le> \<bar>fst d\<bar>" by linarith
    from mult_left_mono[OF this, of "\<bar>k\<bar>"] have "\<bar>k\<bar> \<le> \<bar>k\<bar> * \<bar>fst d\<bar>" by simp
    with 1 show ?thesis by (simp add: abs_mult)
  next
    assume "snd d \<noteq> 0"
    then have "1 \<le> \<bar>snd d\<bar>" by linarith
    from mult_left_mono[OF this, of "\<bar>k\<bar>"] have "\<bar>k\<bar> \<le> \<bar>k\<bar> * \<bar>snd d\<bar>" by simp
    with 2 show ?thesis by (simp add: abs_mult)
  qed
qed

lemma pos_step: "(k::int) > 0 \<Longrightarrow> \<exists>j. k = int (Suc j)"
  by (rule exI[of _ "nat k - 1"]) simp

lemma steps_set:
  "set (0 # map (\<lambda>k. int (Suc k)) [0..<m1] @ map (\<lambda>k. - int (Suc k)) [0..<m2]) = {- int m2..int m1}"
  (is "set ?ks = _")
proof (intro set_eqI iffI)
  fix k assume "k \<in> set ?ks"
  then consider "k = 0" | j where "j < m1" "k = int (Suc j)" | j where "j < m2" "k = - int (Suc j)"
    by (auto simp del: of_nat_Suc)
  then show "k \<in> {- int m2..int m1}" by cases simp_all
next
  fix k :: int assume k: "k \<in> {- int m2..int m1}"
  consider "k = 0" | "k > 0" | "k < 0" by linarith
  then show "k \<in> set ?ks"
  proof cases
    case 1 then show ?thesis by simp
  next
    case 2
    then obtain j where j: "k = int (Suc j)" using pos_step by blast
    with k have "j < m1" by simp
    with j have "k \<in> (\<lambda>k. int (Suc k)) ` {0..<m1}" by (simp del: of_nat_Suc)
    then show ?thesis by (simp del: of_nat_Suc)
  next
    case 3
    then have "- k > 0" by simp
    then obtain j where j: "- k = int (Suc j)" using pos_step by blast
    with k have "j < m2" by simp
    moreover from j have "k = - int (Suc j)" by simp
    ultimately have "k \<in> (\<lambda>k. - int (Suc k)) ` {0..<m2}" by (simp del: of_nat_Suc)
    then show ?thesis by (simp del: of_nat_Suc)
  qed
qed

lemma steps_distinct:
  "distinct (0 # map (\<lambda>k. int (Suc k)) [0..<m1] @ map (\<lambda>k. - int (Suc k)) [0..<m2])"
proof -
  have 1: "distinct (map (\<lambda>k. int (Suc k)) [0..<m1])" by (simp add: distinct_map inj_on_def)
  have 2: "distinct (map (\<lambda>k. - int (Suc k)) [0..<m2])" by (simp add: distinct_map inj_on_def)
  have 3: "set (map (\<lambda>k. int (Suc k)) [0..<m1]) \<inter> set (map (\<lambda>k. - int (Suc k)) [0..<m2]) = {}"
  proof -
    have "x > 0" if "x \<in> set (map (\<lambda>k. int (Suc k)) [0..<m1])" for x using that by auto
    moreover have "x < 0" if "x \<in> set (map (\<lambda>k. - int (Suc k)) [0..<m2])" for x using that by auto
    ultimately show ?thesis by force
  qed
  have 4: "0 \<notin> set (map (\<lambda>k. int (Suc k)) [0..<m1])" "0 \<notin> set (map (\<lambda>k. - int (Suc k)) [0..<m2])"
    by auto
  from 1 2 3 4 show ?thesis by (simp only: distinct.simps distinct_append set_append Un_iff) simp
qed

lemma axis_line:
  assumes wf: "wf_board b n" and nz: "fst d \<noteq> 0 \<or> snd d \<noteq> 0"
    and here: "cellIs b n (Has s) (row p) (col p)"
  shows "\<exists>line. axisPositions b n (Has s) p (d, (- fst d, - snd d)) = Inr line \<and>
           contiguousLine line p d \<and>
           (\<forall>q\<in>set line. cellIs b n (Has s) (row q) (col q)) \<and>
           (runThrough b n s p d w \<longleftrightarrow> w \<le> int (length line))"
proof -
  from axis_char[OF wf nz here] obtain m1 m2 :: nat where
    A: "axisPositions b n (Has s) p (d, (- fst d, - snd d)) =
             Inr (p # map (\<lambda>k. shift p d (int (Suc k))) [0..<m1] @
                      map (\<lambda>k. shift p d (- int (Suc k))) [0..<m2])"
    and B: "\<And>k. - int m2 \<le> k \<Longrightarrow> k \<le> int m1 \<Longrightarrow>
                cellIs b n (Has s) (row (shift p d k)) (col (shift p d k))"
    and C: "\<not> cellIs b n (Has s) (row (shift p d (int m1 + 1))) (col (shift p d (int m1 + 1)))"
    and D: "\<not> cellIs b n (Has s) (row (shift p d (- int m2 - 1))) (col (shift p d (- int m2 - 1)))"
    by blast
  let ?ks = "0 # map (\<lambda>k. int (Suc k)) [0..<m1] @ map (\<lambda>k. - int (Suc k)) [0..<m2]"
  let ?line = "p # map (\<lambda>k. shift p d (int (Suc k))) [0..<m1] @
                      map (\<lambda>k. shift p d (- int (Suc k))) [0..<m2]"
  have line: "?line = map (shift p d) ?ks" by (simp add: comp_def)
  have len: "int (length ?line) = 1 + int m1 + int m2" by simp
  have setl: "set ?line = shift p d ` {- int m2..int m1}"
    unfolding line set_map steps_set ..
  have inj: "inj_on (shift p d) (set ?ks)"
    by (rule inj_onI) (rule shift_inj[OF nz])
  have dist: "distinct ?line"
    unfolding line distinct_map by (intro conjI steps_distinct inj)
  have cl: "contiguousLine ?line p d"
  proof -
    have "\<exists>lo\<in>{- int (length ?line)..0}. \<exists>hi\<in>{0..int (length ?line)}.
            set ?line = shift p d ` {lo..hi}"
    proof (rule bexI[of _ "- int m2"], rule bexI[of _ "int m1"])
      show "set ?line = shift p d ` {- int m2..int m1}" by (rule setl)
      show "int m1 \<in> {0..int (length ?line)}" by simp
      show "- int m2 \<in> {- int (length ?line)..0}" by simp
    qed
    with dist show ?thesis unfolding contiguousLine_def by (rule conjI)
  qed
  have cells: "\<forall>q\<in>set ?line. cellIs b n (Has s) (row q) (col q)"
  proof
    fix q assume "q \<in> set ?line"
    then obtain k where "q = shift p d k" "- int m2 \<le> k" "k \<le> int m1"
      unfolding setl by auto
    with B show "cellIs b n (Has s) (row q) (col q)" by blast
  qed
  have run: "runThrough b n s p d w \<longleftrightarrow> w \<le> int (length ?line)"
  proof
    assume "runThrough b n s p d w"
    then obtain lo hi where lh': "lo \<in> {- n..0}" "hi \<in> {0..n}" "w \<le> hi - lo + 1"
      and all': "\<forall>k\<in>{lo..hi}. cellIs b n (Has s) (row (shift p d k)) (col (shift p d k))"
      unfolding runThrough_def by blast
    from lh' have lh: "lo \<le> 0" "0 \<le> hi" "w \<le> hi - lo + 1" by simp_all
    have all: "cellIs b n (Has s) (row (shift p d k)) (col (shift p d k))"
      if "lo \<le> k" "k \<le> hi" for k using all' that by simp
    have "hi \<le> int m1"
    proof (rule ccontr)
      assume "\<not> hi \<le> int m1"
      then have "lo \<le> int m1 + 1" "int m1 + 1 \<le> hi" using lh by simp_all
      from all[OF this] C show False by simp
    qed
    moreover have "- int m2 \<le> lo"
    proof (rule ccontr)
      assume "\<not> - int m2 \<le> lo"
      then have "lo \<le> - int m2 - 1" "- int m2 - 1 \<le> hi" using lh by simp_all
      from all[OF this] D show False by simp
    qed
    ultimately show "w \<le> int (length ?line)" using lh len by linarith
  next
    assume w: "w \<le> int (length ?line)"
    have "\<bar>int m1\<bar> < n" by (rule cellIs_step_bound[OF nz here B]) simp_all
    moreover have "\<bar>- int m2\<bar> < n" by (rule cellIs_step_bound[OF nz here B]) simp_all
    ultimately have b1: "int m1 \<in> {0..n}" and b2: "- int m2 \<in> {- n..0}" by simp_all
    show "runThrough b n s p d w"
      unfolding runThrough_def
    proof (rule bexI[of _ "- int m2"], rule bexI[of _ "int m1"], intro conjI ballI)
      show "w \<le> int m1 - - int m2 + 1" using w len by linarith
    next
      fix k assume "k \<in> {- int m2..int m1}"
      then show "cellIs b n (Has s) (row (shift p d k)) (col (shift p d k))" using B by simp
    qed (rule b1, rule b2)
  qed
  show ?thesis by (intro exI[of _ ?line] conjI A cl cells run)
qed

lemma directions_axes: "directions = map (\<lambda>d. (d, (- fst d, - snd d))) axes"
  by (simp add: directions_def axes_def)

lemma axes_nonzero: "d \<in> set axes \<Longrightarrow> fst d \<noteq> 0 \<or> snd d \<noteq> 0"
  by (auto simp: axes_def)

lemma checkWin_loop_char:
  assumes wf: "wf_board (board g) (boardSize (config g))"
    and here: "cellIs (board g) (boardSize (config g)) (Has s) (row p) (col p)"
    and nz: "\<forall>d\<in>set ds. fst d \<noteq> 0 \<or> snd d \<noteq> 0"
  shows "case find (\<lambda>d. runThrough (board g) (boardSize (config g)) s p d (winCount (config g))) ds of
           None \<Rightarrow>
             checkWin_loop g (Has s) p (map (\<lambda>d. (d, (- fst d, - snd d))) ds) = Inr (False, g)
         | Some d \<Rightarrow>
             (\<exists>line. checkWin_loop g (Has s) p (map (\<lambda>d. (d, (- fst d, - snd d))) ds) =
                        Inr (True, g\<lparr> winningPositions := Some line \<rparr>) \<and>
                     winCount (config g) \<le> int (length line) \<and>
                     contiguousLine line p d \<and>
                     (\<forall>q\<in>set line. cellIs (board g) (boardSize (config g)) (Has s) (row q) (col q)))"
  using nz
proof (induction ds)
  case Nil
  then show ?case by simp
next
  case (Cons d ds)
  then have nzd: "fst d \<noteq> 0 \<or> snd d \<noteq> 0" and nzds: "\<forall>d\<in>set ds. fst d \<noteq> 0 \<or> snd d \<noteq> 0"
    by simp_all
  from axis_line[OF wf nzd here, of "winCount (config g)"] obtain line where
    L: "axisPositions (board g) (boardSize (config g)) (Has s) p (d, (- fst d, - snd d)) = Inr line"
      "contiguousLine line p d"
      "\<forall>q\<in>set line. cellIs (board g) (boardSize (config g)) (Has s) (row q) (col q)"
      "runThrough (board g) (boardSize (config g)) s p d (winCount (config g)) \<longleftrightarrow>
         winCount (config g) \<le> int (length line)"
    by blast
  show ?case
  proof (cases "runThrough (board g) (boardSize (config g)) s p d (winCount (config g))")
    case True
    with L have "checkWin_loop g (Has s) p (map (\<lambda>d. (d, (- fst d, - snd d))) (d # ds)) =
                   Inr (True, g\<lparr> winningPositions := Some line \<rparr>)"
      by simp
    moreover from True have
      "find (\<lambda>d. runThrough (board g) (boardSize (config g)) s p d (winCount (config g))) (d # ds)
         = Some d"
      by simp
    ultimately show ?thesis
      using L True by (simp only: option.case) blast
  next
    case False
    with L(1,4) have eq:
      "checkWin_loop g (Has s) p (map (\<lambda>d. (d, (- fst d, - snd d))) (d # ds)) =
       checkWin_loop g (Has s) p (map (\<lambda>d. (d, (- fst d, - snd d))) ds)"
      by simp
    from False have f:
      "find (\<lambda>d. runThrough (board g) (boardSize (config g)) s p d (winCount (config g))) (d # ds)
       = find (\<lambda>d. runThrough (board g) (boardSize (config g)) s p d (winCount (config g))) ds"
      by simp
    show ?thesis unfolding eq f by (rule Cons.IH[OF nzds])
  qed
qed

lemma checkWin_char:
  assumes wf: "wf_game g"
    and here: "cellIs (board g) (boardSize (config g)) (Has s) (row p) (col p)"
  shows "case find (\<lambda>d. runThrough (board g) (boardSize (config g)) s p d (winCount (config g))) axes of
           None \<Rightarrow> checkWin g p = Inr (False, g)
         | Some d \<Rightarrow>
             (\<exists>line. checkWin g p = Inr (True, g\<lparr> winningPositions := Some line \<rparr>) \<and>
                     winCount (config g) \<le> int (length line) \<and>
                     contiguousLine line p d \<and>
                     (\<forall>q\<in>set line. cellIs (board g) (boardSize (config g)) (Has s) (row q) (col q)))"
proof -
  from here have rd: "readCell (board g) (row p) (col p) = Inr (Has s)"
    by (simp add: cellIs_def)
  have nz: "\<forall>d\<in>set axes. fst d \<noteq> 0 \<or> snd d \<noteq> 0" using axes_nonzero by blast
  have eq: "checkWin g p = checkWin_loop g (Has s) p (map (\<lambda>d. (d, (- fst d, - snd d))) axes)"
    by (simp add: checkWin_def rd directions_axes)
  show ?thesis
    unfolding eq by (rule checkWin_loop_char[OF wf[unfolded wf_game_def] here nz])
qed

lemma gridPositions_mem:
  "p \<in> set (gridPositions n) \<longleftrightarrow> (0 \<le> row p \<and> row p < n \<and> 0 \<le> col p \<and> col p < n)"
proof -
  have "set (gridPositions n) = (\<Union>r\<in>{0..n - 1}. (\<lambda>c. \<lparr> row = r, col = c \<rparr>) ` {0..n - 1})"
    by (simp add: gridPositions_def)
  moreover have "p \<in> (\<Union>r\<in>{0..n - 1}. (\<lambda>c. \<lparr> row = r, col = c \<rparr>) ` {0..n - 1})
     \<longleftrightarrow> (0 \<le> row p \<and> row p < n \<and> 0 \<le> col p \<and> col p < n)"
  proof
    assume "p \<in> (\<Union>r\<in>{0..n - 1}. (\<lambda>c. \<lparr> row = r, col = c \<rparr>) ` {0..n - 1})"
    then obtain r c where "r \<in> {0..n - 1}" "c \<in> {0..n - 1}" "p = \<lparr> row = r, col = c \<rparr>"
      by (elim UN_E imageE)
    then show "0 \<le> row p \<and> row p < n \<and> 0 \<le> col p \<and> col p < n" by simp
  next
    assume a: "0 \<le> row p \<and> row p < n \<and> 0 \<le> col p \<and> col p < n"
    have "p = \<lparr> row = row p, col = col p \<rparr>" by simp
    moreover from a have "row p \<in> {0..n - 1}" "col p \<in> {0..n - 1}" by simp_all
    ultimately show "p \<in> (\<Union>r\<in>{0..n - 1}. (\<lambda>c. \<lparr> row = r, col = c \<rparr>) ` {0..n - 1})"
      by (intro UN_I imageI) (assumption, rule image_eqI)
  qed
  ultimately show ?thesis by simp
qed

lemma isDraw_scan_char:
  assumes "wf_board b n" "\<forall>p\<in>set ps. 0 \<le> row p \<and> row p < n \<and> 0 \<le> col p \<and> col p < n"
  shows "isDraw_scan b ps = Inr (\<forall>p\<in>set ps. readCell b (row p) (col p) \<noteq> Inr Null)"
  using assms(2)
proof (induction ps)
  case Nil
  then show ?case by simp
next
  case (Cons p ps)
  then have "0 \<le> row p" "row p < n" "0 \<le> col p" "col p < n" by simp_all
  from wf_board_readCell(1)[OF assms(1) this]
  obtain x where x: "readCell b (row p) (col p) = Inr x" by blast
  with Cons show ?case by simp
qed

lemma isDraw_char:
  assumes "wf_game g"
  shows "isDraw g = Inr (boardFull (board g) (boardSize (config g)))"
proof -
  let ?b = "board g" and ?n = "boardSize (config g)"
  from assms have wf: "wf_board ?b ?n" by (simp add: wf_game_def)
  have "isDraw g = Inr (\<forall>p\<in>set (gridPositions ?n). readCell ?b (row p) (col p) \<noteq> Inr Null)"
    unfolding isDraw_def by (rule isDraw_scan_char[OF wf]) (simp add: gridPositions_mem)
  moreover have "(\<forall>p\<in>set (gridPositions ?n). readCell ?b (row p) (col p) \<noteq> Inr Null)
                 \<longleftrightarrow> boardFull ?b ?n"
  proof
    assume a: "\<forall>p\<in>set (gridPositions ?n). readCell ?b (row p) (col p) \<noteq> Inr Null"
    show "boardFull ?b ?n"
      unfolding boardFull_def
    proof (intro ballI)
      fix r c assume rc: "r \<in> {0..?n - 1}" "c \<in> {0..?n - 1}"
      then have in_b: "0 \<le> r" "r < ?n" "0 \<le> c" "c < ?n" by simp_all
      then have "\<lparr> row = r, col = c \<rparr> \<in> set (gridPositions ?n)" by (simp add: gridPositions_mem)
      with a have "readCell ?b r c \<noteq> Inr Null" by force
      with wf_board_readCell[OF wf in_b]
      show "case readCell ?b r c of Inl _ \<Rightarrow> False | Inr x \<Rightarrow> isStone x"
        by (cases "?b ! nat r ! nat c") (simp_all add: isStone_def)
    qed
  next
    assume f: "boardFull ?b ?n"
    show "\<forall>p\<in>set (gridPositions ?n). readCell ?b (row p) (col p) \<noteq> Inr Null"
    proof
      fix p assume "p \<in> set (gridPositions ?n)"
      then have "row p \<in> {0..?n - 1}" "col p \<in> {0..?n - 1}" by (simp_all add: gridPositions_mem)
      with f have "case readCell ?b (row p) (col p) of Inl _ \<Rightarrow> False | Inr x \<Rightarrow> isStone x"
        unfolding boardFull_def by blast
      then show "readCell ?b (row p) (col p) \<noteq> Inr Null"
        by (auto simp: isStone_def split: sum.splits)
    qed
  qed
  ultimately show ?thesis by simp
qed

lemma incMoveCount_sel [simp]:
  "board (incMoveCount s g) = board g" "config (incMoveCount s g) = config g"
  "currentPlayer (incMoveCount s g) = currentPlayer g" "gameStatus (incMoveCount s g) = gameStatus g"
  "winningPositions (incMoveCount s g) = winningPositions g" "history (incMoveCount s g) = history g"
  "lastMove (incMoveCount s g) = lastMove g"
  by (simp_all add: incMoveCount_def)

lemma stonePlaced_sel [simp]:
  "board (stonePlaced g p now) =
     (board g)[nat (row p) := (board g ! nat (row p))[nat (col p) := Has (currentPlayer g)]]"
  "config (stonePlaced g p now) = config g"
  "currentPlayer (stonePlaced g p now) = currentPlayer g"
  "gameStatus (stonePlaced g p now) = gameStatus g"
  "winningPositions (stonePlaced g p now) = winningPositions g"
  "lastMove (stonePlaced g p now) = Some p"
  "history (stonePlaced g p now) = history g @
             [\<lparr> position = p, stone = currentPlayer g,
                moveNumber = int (length (history g)) + 1, timestamp = now \<rparr>]"
  by (simp_all add: stonePlaced_def)

lemma list_all_update: "list_all P xs \<Longrightarrow> P v \<Longrightarrow> list_all P (xs[i := v])"
  unfolding list_all_iff using set_update_subset_insert[of xs i v] by auto

lemma wf_board_update:
  assumes wf: "wf_board b n" and r: "0 \<le> r" "r < n" and c: "0 \<le> c" "c < n" and v: "v \<noteq> Undefined"
  shows "writeCell b r c v = Inr (b[nat r := (b ! nat r)[nat c := v]])"
    and "wf_board (b[nat r := (b ! nat r)[nat c := v]]) n"
    and "readCell (b[nat r := (b ! nat r)[nat c := v]]) r c = Inr v"
proof -
  let ?b' = "b[nat r := (b ! nat r)[nat c := v]]"
  from wf r have rl: "nat r < length b" and rl': "r < int (length b)" by (auto simp: wf_board_def)
  with wf have rw: "int (length (b ! nat r)) = n" "list_all (\<lambda>x. x \<noteq> Undefined) (b ! nat r)"
    by (auto simp: wf_board_def list_all_length)
  with c have cl: "nat c < length (b ! nat r)" and cl': "c < int (length (b ! nat r))" by auto
  show "writeCell b r c v = Inr ?b'"
    using r c rl' cl' by (simp add: writeCell_def writeRow_def)
  have row_ok: "int (length ((b ! nat r)[nat c := v])) = n \<and>
                list_all (\<lambda>x. x \<noteq> Undefined) ((b ! nat r)[nat c := v])"
    using rw v by (simp add: list_all_update)
  show "wf_board ?b' n"
    using wf row_ok unfolding wf_board_def by (simp add: list_all_update)
  show "readCell ?b' r c = Inr v"
    using r c rl rl' cl cl' by (simp add: readCell_def Let_def)
qed

lemma placeStone_outcome:
  assumes wf: "wf_game g" and pl: "gameStatus g = Playing"
    and valid: "isValidPosition g p"
    and empty: "readCell (board g) (row p) (col p) = Inr Null"
  shows "wf_game (stonePlaced g p now)"
    and "cellIs (board (stonePlaced g p now)) (boardSize (config g)) (Has (currentPlayer g)) (row p) (col p)"
    and "case find (\<lambda>d. runThrough (board (stonePlaced g p now)) (boardSize (config g))
                          (currentPlayer g) p d (winCount (config g))) axes of
           Some d \<Rightarrow>
             (\<exists>line. placeStone g p now =
                        Inr (True, (stonePlaced g p now)\<lparr> winningPositions := Some line,
                                     gameStatus := winStatus (currentPlayer g) \<rparr>) \<and>
                     winCount (config g) \<le> int (length line) \<and>
                     contiguousLine line p d \<and>
                     (\<forall>q\<in>set line. cellIs (board (stonePlaced g p now)) (boardSize (config g))
                                       (Has (currentPlayer g)) (row q) (col q)))
         | None \<Rightarrow>
             placeStone g p now =
               Inr (True,
                    if boardFull (board (stonePlaced g p now)) (boardSize (config g))
                    then (stonePlaced g p now)\<lparr> gameStatus := Draw \<rparr>
                    else (stonePlaced g p now)\<lparr> currentPlayer := otherStone (currentPlayer g) \<rparr>)"
proof -
  let ?n = "boardSize (config g)" and ?s = "currentPlayer g" and ?g2 = "stonePlaced g p now"
  let ?b' = "(board g)[nat (row p) := (board g ! nat (row p))[nat (col p) := Has ?s]]"
  from wf have wfb: "wf_board (board g) ?n" by (simp add: wf_game_def)
  from valid have in_b: "0 \<le> row p" "row p < ?n" "0 \<le> col p" "col p < ?n"
    by (simp_all add: isValidPosition_def)
  note upd = wf_board_update[OF wfb in_b, of "Has ?s", simplified]
  show wf2: "wf_game ?g2" using upd(2) by (simp add: wf_game_def)
  show here: "cellIs (board ?g2) ?n (Has ?s) (row p) (col p)"
    using upd(3) in_b by (simp add: cellIs_def)
  have here2: "cellIs (board ?g2) (boardSize (config ?g2)) (Has ?s) (row p) (col p)"
    using here by simp
  note cw = checkWin_char[OF wf2 here2]
  note dr = isDraw_char[OF wf2]
  have start: "placeStone g p now =
      (case checkWin ?g2 p of
         Inl e \<Rightarrow> Inl e
       | Inr (won, g3) \<Rightarrow>
           if won
           then Inr (True, g3\<lparr> gameStatus := (if currentPlayer g3 = Black then BlackWin else WhiteWin) \<rparr>)
           else (case isDraw g3 of
                   Inl e \<Rightarrow> Inl e
                 | Inr d \<Rightarrow>
                     if d then Inr (True, g3\<lparr> gameStatus := Draw \<rparr>)
                     else Inr (True, g3\<lparr> currentPlayer :=
                            (if currentPlayer g3 = Black then White else Black) \<rparr>)))"
    using valid empty pl upd(1) by (simp add: placeStone_def stonePlaced_def Let_def)
  show "case find (\<lambda>d. runThrough (board ?g2) ?n ?s p d (winCount (config g))) axes of
           Some d \<Rightarrow>
             (\<exists>line. placeStone g p now =
                        Inr (True, ?g2\<lparr> winningPositions := Some line,
                                     gameStatus := winStatus ?s \<rparr>) \<and>
                     winCount (config g) \<le> int (length line) \<and>
                     contiguousLine line p d \<and>
                     (\<forall>q\<in>set line. cellIs (board ?g2) ?n (Has ?s) (row q) (col q)))
         | None \<Rightarrow>
             placeStone g p now =
               Inr (True,
                    if boardFull (board ?g2) ?n
                    then ?g2\<lparr> gameStatus := Draw \<rparr>
                    else ?g2\<lparr> currentPlayer := otherStone ?s \<rparr>)"
  proof (cases "find (\<lambda>d. runThrough (board ?g2) ?n ?s p d (winCount (config g))) axes")
    case None
    with cw have "checkWin ?g2 p = Inr (False, ?g2)" by simp
    with dr have "placeStone g p now =
               Inr (True,
                    if boardFull (board ?g2) ?n
                    then ?g2\<lparr> gameStatus := Draw \<rparr>
                    else ?g2\<lparr> currentPlayer := otherStone ?s \<rparr>)"
      unfolding start by (simp add: otherStone_def)
    with None show ?thesis by (simp only: option.case)
  next
    case (Some d)
    with cw obtain line where
      L: "checkWin ?g2 p = Inr (True, ?g2\<lparr> winningPositions := Some line \<rparr>)"
         "winCount (config g) \<le> int (length line)"
         "contiguousLine line p d"
         "\<forall>q\<in>set line. cellIs (board ?g2) ?n (Has ?s) (row q) (col q)"
      by auto
    have "placeStone g p now =
            Inr (True, ?g2\<lparr> winningPositions := Some line, gameStatus := winStatus ?s \<rparr>)"
      unfolding start L(1) by (simp add: winStatus_def)
    with L(2,3,4) Some show ?thesis by (simp only: option.case) blast
  qed
qed

lemma placeStone_cases:
  assumes wf: "wf_game g"
  shows "(\<not> isValidPosition g p \<or> readCell (board g) (row p) (col p) \<noteq> Inr Null \<or>
          gameStatus g \<noteq> Playing) \<and> placeStone g p now = Inr (False, g)
         \<or>
         isValidPosition g p \<and> readCell (board g) (row p) (col p) = Inr Null \<and>
         gameStatus g = Playing \<and> (\<exists>g'. placeStone g p now = Inr (True, g'))"
proof (cases "isValidPosition g p")
  case False
  then show ?thesis by (simp add: placeStone_def)
next
  case True
  then have in_b: "0 \<le> row p" "row p < boardSize (config g)" "0 \<le> col p" "col p < boardSize (config g)"
    by (simp_all add: isValidPosition_def)
  from wf have wfb: "wf_board (board g) (boardSize (config g))" by (simp add: wf_game_def)
  from wf_board_readCell(1)[OF wfb in_b]
  obtain x where x: "readCell (board g) (row p) (col p) = Inr x" by blast
  show ?thesis
  proof (cases "x = Null \<and> gameStatus g = Playing")
    case False
    with True x show ?thesis by (auto simp: placeStone_def)
  next
    case T: True
    with x have e: "readCell (board g) (row p) (col p) = Inr Null" and pl: "gameStatus g = Playing"
      by simp_all
    from placeStone_outcome(3)[OF wf pl True e, of now]
    have "\<exists>g'. placeStone g p now = Inr (True, g')"
      by (cases "find (\<lambda>d. runThrough (board (stonePlaced g p now)) (boardSize (config g))
                          (currentPlayer g) p d (winCount (config g))) axes") auto
    with True e pl show ?thesis by blast
  qed
qed

lemma placeStone_True_pre:
  assumes "wf_game g" "placeStone g p now = Inr (True, g')"
  shows "isValidPosition g p" "readCell (board g) (row p) (col p) = Inr Null" "gameStatus g = Playing"
  using placeStone_cases[OF assms(1), of p now] assms(2) by auto

lemma filter_update_count:
  assumes "i < length xs" "\<not> P (xs ! i)" "P y"
  shows "length (filter P (xs[i := y])) = Suc (length (filter P xs))"
  using assms
proof (induction xs arbitrary: i)
  case Nil
  then show ?case by simp
next
  case (Cons x xs)
  then show ?case by (cases i) simp_all
qed

lemma nonEmptyCount_update:
  assumes r: "r < length b" and c: "c < length (b ! r)" and e: "b ! r ! c = Null" and v: "v \<noteq> Null"
  shows "nonEmptyCount (b[r := (b ! r)[c := v]]) = Suc (nonEmptyCount b)"
proof -
  let ?P = "\<lambda>x. x \<noteq> Null"
  have split: "b = take r b @ (b ! r) # drop (Suc r) b"
    using r by (simp add: id_take_nth_drop[symmetric])
  have upd: "b[r := (b ! r)[c := v]] = take r b @ (b ! r)[c := v] # drop (Suc r) b"
    using r by (simp add: upd_conv_take_nth_drop)
  have "nonEmptyCount (b[r := (b ! r)[c := v]]) =
          length (filter ?P (concat (take r b))) + length (filter ?P ((b ! r)[c := v])) +
          length (filter ?P (concat (drop (Suc r) b)))"
    unfolding nonEmptyCount_def upd by simp
  also have "length (filter ?P ((b ! r)[c := v])) = Suc (length (filter ?P (b ! r)))"
    using c e v by (intro filter_update_count) simp_all
  also have "length (filter ?P (concat (take r b))) + Suc (length (filter ?P (b ! r))) +
          length (filter ?P (concat (drop (Suc r) b))) =
          Suc (length (filter ?P (concat (take r b @ (b ! r) # drop (Suc r) b))))"
    by simp
  also have "\<dots> = Suc (nonEmptyCount b)"
    unfolding nonEmptyCount_def using split by simp
  finally show ?thesis .
qed

lemma contiguousLine_through: "contiguousLine line p d \<Longrightarrow> p \<in> set line"
proof -
  assume "contiguousLine line p d"
  then obtain lo hi where "lo \<le> 0" "0 \<le> hi" "set line = shift p d ` {lo..hi}"
    unfolding contiguousLine_def by auto
  then have "shift p d 0 \<in> set line" by (simp del: shift_zero)
  then show ?thesis by simp
qed

lemma getEmptyPositions_scan_char:
  assumes "wf_board b n" "\<forall>p\<in>set ps. 0 \<le> row p \<and> row p < n \<and> 0 \<le> col p \<and> col p < n"
  shows "getEmptyPositions_scan b ps = Inr (filter (\<lambda>p. readCell b (row p) (col p) = Inr Null) ps)"
  using assms(2)
proof (induction ps)
  case Nil
  then show ?case by simp
next
  case (Cons p ps)
  then have "0 \<le> row p" "row p < n" "0 \<le> col p" "col p < n" by simp_all
  from wf_board_readCell(1)[OF assms(1) this]
  obtain x where x: "readCell b (row p) (col p) = Inr x" by blast
  with Cons show ?case by simp
qed

lemma getEmptyPositions_empty_iff:
  assumes "wf_game g"
  shows "getEmptyPositions g = Inr [] \<longleftrightarrow> boardFull (board g) (boardSize (config g))"
proof -
  let ?b = "board g" and ?n = "boardSize (config g)"
  from assms have wf: "wf_board ?b ?n" by (simp add: wf_game_def)
  have 1: "getEmptyPositions g =
        Inr (filter (\<lambda>p. readCell ?b (row p) (col p) = Inr Null) (gridPositions ?n))"
    unfolding getEmptyPositions_def
    by (rule getEmptyPositions_scan_char[OF wf]) (simp add: gridPositions_mem)
  have 2: "isDraw g = Inr (\<forall>p\<in>set (gridPositions ?n). readCell ?b (row p) (col p) \<noteq> Inr Null)"
    unfolding isDraw_def by (rule isDraw_scan_char[OF wf]) (simp add: gridPositions_mem)
  from 2 isDraw_char[OF assms]
  have "boardFull ?b ?n \<longleftrightarrow> (\<forall>p\<in>set (gridPositions ?n). readCell ?b (row p) (col p) \<noteq> Inr Null)"
    by simp
  then show ?thesis unfolding 1 by (simp add: filter_empty_conv)
qed

lemma placeStone_True_shape:
  assumes wf: "wf_game g" and ps: "placeStone g p now = Inr (True, g')"
  shows "board g' = board (stonePlaced g p now)"
    and "history g' = history (stonePlaced g p now)"
    and "config g' = config g"
    and "gameStatus g' = Playing \<longrightarrow> currentPlayer g' = otherStone (currentPlayer g)"
proof -
  let ?g2 = "stonePlaced g p now"
  let ?P = "\<lambda>d. runThrough (board ?g2) (boardSize (config g)) (currentPlayer g) p d (winCount (config g))"
  note pre = placeStone_True_pre[OF wf ps]
  note out = placeStone_outcome[OF wf pre(3) pre(1) pre(2), of now]
  have "board g' = board ?g2 \<and> history g' = history ?g2 \<and> config g' = config g \<and>
        (gameStatus g' = Playing \<longrightarrow> currentPlayer g' = otherStone (currentPlayer g))"
  proof (cases "find ?P axes")
    case None
    with out(3) ps have "g' = (if boardFull (board ?g2) (boardSize (config g))
                    then ?g2\<lparr> gameStatus := Draw \<rparr>
                    else ?g2\<lparr> currentPlayer := otherStone (currentPlayer g) \<rparr>)"
      by simp
    then show ?thesis by simp
  next
    case (Some d)
    with out(3) ps obtain line where
      "g' = ?g2\<lparr> winningPositions := Some line, gameStatus := winStatus (currentPlayer g) \<rparr>"
      by auto
    then show ?thesis by (simp add: winStatus_def)
  qed
  then show "board g' = board ?g2" "history g' = history ?g2" "config g' = config g"
    "gameStatus g' = Playing \<longrightarrow> currentPlayer g' = otherStone (currentPlayer g)"
    by blast+
qed

lemma placeStone_wf:
  assumes wf: "wf_game g" and ps: "placeStone g p now = Inr (ok, g')"
  shows "wf_game g'"
proof (cases ok)
  case False
  with placeStone_cases[OF wf, of p now] ps wf show ?thesis by auto
next
  case True
  with ps have ps': "placeStone g p now = Inr (True, g')" by simp
  note pre = placeStone_True_pre[OF wf ps']
  from placeStone_outcome(1)[OF wf pre(3) pre(1) pre(2), of now] placeStone_True_shape(1,3)[OF wf ps']
  show ?thesis by (simp add: wf_game_def)
qed

lemma nonEmptyCount_fresh: "nonEmptyCount (replicate a (replicate b Null)) = 0"
proof -
  have "\<forall>x\<in>set (concat (replicate a (replicate b Null))). x = Null" by auto
  then have "filter (\<lambda>x. x \<noteq> Null) (concat (replicate a (replicate b Null))) = []"
    by (simp add: filter_empty_conv)
  then show ?thesis by (simp add: nonEmptyCount_def)
qed

lemma new_Game_fresh:
  assumes "new_Game pc = Inr g"
  shows "wf_game g" and "history g = []" and "currentPlayer g = Black"
    and "gameStatus g = Playing" and "nonEmptyCount (board g) = 0" and "lastMove g = None"
    and "winningPositions g = None" and "config g = mergeConfig pc"
proof -
  let ?n = "boardSize (mergeConfig pc)"
  from assms have n: "0 \<le> ?n" and
    g: "g = \<lparr> board = replicate (nat ?n) (replicate (nat ?n) Null),
                   currentPlayer = Black, gameStatus = Playing, winningPositions = None,
                   history = [], lastMove = None, config = mergeConfig pc,
                   players_black = \<lparr> playerStone = Black, timeUsed = 0, moveCount = 0 \<rparr>,
                   players_white = \<lparr> playerStone = White, timeUsed = 0, moveCount = 0 \<rparr> \<rparr>"
    by (auto simp: new_Game_def emptyBoard_def Let_def split: if_splits)
  show "wf_game g" using n unfolding g by (simp add: wf_game_def wf_board_def list_all_iff)
  show "history g = []" "currentPlayer g = Black" "gameStatus g = Playing" "lastMove g = None"
    "winningPositions g = None" "config g = mergeConfig pc"
    unfolding g by simp_all
  show "nonEmptyCount (board g) = 0" unfolding g by (simp add: nonEmptyCount_fresh)
qed

lemma turn_inv_step:
  assumes inv: "turn_inv g"
  shows "\<exists>ok g'. placeStone g p now = Inr (ok, g') \<and> turn_inv g' \<and>
           length (history g') = length (history g) + (if ok then 1 else 0)"
proof -
  from inv have wf: "wf_game g" by (simp add: turn_inv_def)
  from placeStone_cases[OF wf, of p now]
  consider "placeStone g p now = Inr (False, g)"
    | g' where "isValidPosition g p" "readCell (board g) (row p) (col p) = Inr Null"
        "gameStatus g = Playing" "placeStone g p now = Inr (True, g')"
    by blast
  then show ?thesis
  proof cases
    case 1
    with inv show ?thesis by (intro exI[of _ False] exI[of _ g]) simp
  next
    case 2
    let ?b = "board g" and ?n = "boardSize (config g)"
    note sh = placeStone_True_shape[OF wf 2(4)]
    from wf have wfb: "wf_board ?b ?n" by (simp add: wf_game_def)
    from 2(1) have in_b: "0 \<le> row p" "row p < ?n" "0 \<le> col p" "col p < ?n"
      by (simp_all add: isValidPosition_def)
    from wfb in_b have rl: "nat (row p) < length ?b" by (auto simp: wf_board_def)
    with wfb in_b have cl: "nat (col p) < length (?b ! nat (row p))"
      by (auto simp: wf_board_def list_all_length)
    from wf_board_readCell(1)[OF wfb in_b] 2(2) have null: "?b ! nat (row p) ! nat (col p) = Null"
      by simp
    have cnt: "nonEmptyCount (board g') = Suc (nonEmptyCount ?b)"
      unfolding sh(1) using nonEmptyCount_update[OF rl cl null, of "Has (currentPlayer g)"] by simp
    have len: "length (history g') = Suc (length (history g))"
      unfolding sh(2) by simp
    from inv 2(3) have cp: "currentPlayer g = (if even (length (history g)) then Black else White)"
      by (simp add: turn_inv_def)
    have "turn_inv g'"
      unfolding turn_inv_def
    proof (intro conjI impI)
      show "wf_game g'" by (rule placeStone_wf[OF wf 2(4)])
      show "nonEmptyCount (board g') = length (history g')"
        using cnt len inv by (simp add: turn_inv_def)
      assume "gameStatus g' = Playing"
      with sh(4) have "currentPlayer g' = otherStone (currentPlayer g)" by simp
      with cp show "currentPlayer g' = (if even (length (history g')) then Black else White)"
        unfolding len by (simp add: otherStone_def)
    qed
    with 2(4) len show ?thesis by (intro exI[of _ True] exI[of _ g']) simp
  qed
qed

lemma turn_inv_placeStones:
  assumes "turn_inv g"
  shows "\<exists>k g'. placeStones g moves = Inr (k, g') \<and> turn_inv g' \<and>
           length (history g') = length (history g) + k"
  using assms
proof (induction moves arbitrary: g)
  case Nil
  then show ?case by simp
next
  case (Cons m moves)
  obtain p now where m: "m = (p, now)" by (cases m)
  from turn_inv_step[OF Cons.prems, of p now] obtain ok g1 where
    1: "placeStone g p now = Inr (ok, g1)" "turn_inv g1"
       "length (history g1) = length (history g) + (if ok then 1 else 0)"
    by blast
  from Cons.IH[OF 1(2)] obtain k g' where
    2: "placeStones g1 moves = Inr (k, g')" "turn_inv g'"
       "length (history g') = length (history g1) + k"
    by blast
  from 1 2 show ?case unfolding m
    by (intro exI[of _ "(if ok then 1 else 0) + k"] exI[of _ g']) simp
qed

lemma isValidPosition_config:
  "config g' = config g \<Longrightarrow> isValidPosition g' p = isValidPosition g p"
  by (simp add: isValidPosition_def)

lemma new_Game_inv:
  assumes "new_Game pc = Inr g"
  shows "engine_inv g"
  using new_Game_fresh[OF assms]
  by (simp add: engine_inv_def log_consistent_def)

lemma placeStone_inv:
  assumes inv: "engine_inv g" and ps: "placeStone g p now = Inr (ok, g')"
  shows "engine_inv g'"
proof (cases ok)
  case False
  from inv have wf: "wf_game g" by (simp add: engine_inv_def)
  from placeStone_cases[OF wf, of p now] ps False have "g' = g" by auto
  with inv show ?thesis by simp
next
  case True
  from inv have wf: "wf_game g" and lc: "log_consistent g"
    and ln: "gameStatus g \<noteq> BlackWin \<and> gameStatus g \<noteq> WhiteWin \<longrightarrow> winningPositions g = None"
    by (simp_all add: engine_inv_def)
  from ps True have ps': "placeStone g p now = Inr (True, g')" by simp
  note pre = placeStone_True_pre[OF wf ps']
  let ?g2 = "stonePlaced g p now"
  have wf': "wf_game g'" by (rule placeStone_wf[OF wf ps])
  have lc2: "log_consistent ?g2"
    using lc pre(1) by (simp add: log_consistent_def isValidPosition_def)
  from ln pre(3) have none: "winningPositions g = None" by simp
  have "log_consistent g' \<and>
        (gameStatus g' \<noteq> BlackWin \<and> gameStatus g' \<noteq> WhiteWin \<longrightarrow> winningPositions g' = None)"
  proof (cases "find (\<lambda>d. runThrough (board ?g2) (boardSize (config g)) (currentPlayer g) p d
                              (winCount (config g))) axes")
    case None
    with placeStone_outcome(3)[OF wf pre(3) pre(1) pre(2), of now] ps'
    have "g' = (if boardFull (board ?g2) (boardSize (config g))
                then ?g2\<lparr> gameStatus := Draw \<rparr>
                else ?g2\<lparr> currentPlayer := otherStone (currentPlayer g) \<rparr>)"
      by simp
    with lc2 none show ?thesis by (simp add: log_consistent_def isValidPosition_def)
  next
    case (Some d)
    with placeStone_outcome(3)[OF wf pre(3) pre(1) pre(2), of now] ps' obtain line where
      "g' = ?g2\<lparr> winningPositions := Some line, gameStatus := winStatus (currentPlayer g) \<rparr>"
      by auto
    with lc2 show ?thesis by (simp add: log_consistent_def isValidPosition_def winStatus_def)
  qed
  with wf' show ?thesis by (simp add: engine_inv_def)
qed

lemma decMoveCount_sel [simp]:
  "board (decMoveCount s g) = board g" "config (decMoveCount s g) = config g"
  "currentPlayer (decMoveCount s g) = currentPlayer g" "gameStatus (decMoveCount s g) = gameStatus g"
  "winningPositions (decMoveCount s g) = winningPositions g" "history (decMoveCount s g) = history g"
  "lastMove (decMoveCount s g) = lastMove g"
  by (simp_all add: decMoveCount_def)

lemma undo_inv:
  assumes inv: "engine_inv g" and u: "undo g = Inr (ok, g')"
  shows "engine_inv g'"
proof (cases "history g = [] \<or> gameStatus g \<noteq> Playing")
  case True
  with u have "g' = g" by (auto simp: undo_def split: if_splits)
  with inv show ?thesis by simp
next
  case False
  then have ne: "history g \<noteq> []" and pl: "gameStatus g = Playing" by simp_all
  from inv have wf: "wf_game g" and lc: "log_consistent g"
    and ln: "gameStatus g \<noteq> BlackWin \<and> gameStatus g \<noteq> WhiteWin \<longrightarrow> winningPositions g = None"
    by (simp_all add: engine_inv_def)
  let ?n = "boardSize (config g)"
  let ?item = "last (history g)" and ?h' = "butlast (history g)"
  let ?pos = "position ?item"
  from lc have all: "list_all (\<lambda>h. isValidPosition g (position h)) (history g)"
    by (simp add: log_consistent_def)
  with ne have "isValidPosition g ?pos" by (simp add: list_all_iff)
  then have in_b: "0 \<le> row ?pos" "row ?pos < ?n" "0 \<le> col ?pos" "col ?pos < ?n"
    by (simp_all add: isValidPosition_def)
  from wf have wfb: "wf_board (board g) ?n" by (simp add: wf_game_def)
  let ?b' = "(board g)[nat (row ?pos) := (board g ! nat (row ?pos))[nat (col ?pos) := Null]]"
  have wr: "writeCell (board g) (row ?pos) (col ?pos) Null = Inr ?b'"
    and wfb': "wf_board ?b' ?n"
    using wf_board_update(1,2)[OF wfb in_b, of Null] by simp_all
  from all have all': "list_all (\<lambda>h. isValidPosition g (position h)) ?h'"
    by (auto simp: list_all_iff dest: in_set_butlastD)
  let ?g1 = "decMoveCount (stone ?item) (g\<lparr> history := ?h', board := ?b' \<rparr>)"
  have g': "g' = (if length ?h' > 0
                  then ?g1\<lparr> lastMove := Some (position (last ?h')), currentPlayer := stone ?item \<rparr>
                  else ?g1\<lparr> lastMove := None, currentPlayer := Black \<rparr>)"
    using u ne pl wr by (auto simp add: undo_def Let_def split: if_splits)
  have len: "butlast (history g) = [] \<longleftrightarrow> \<not> Suc 0 < length (history g)"
    using ne by (cases "history g" rule: rev_cases) auto
  show ?thesis
    unfolding engine_inv_def g' using wfb' all' ln pl len
    by (simp add: wf_game_def log_consistent_def isValidPosition_def)
qed

lemma reset_inv:
  assumes "reset g = Inr g'"
  shows "engine_inv g'"
proof -
  let ?n = "boardSize (config g)"
  from assms have n: "0 \<le> ?n" and
    g': "g' = g\<lparr> board := replicate (nat ?n) (replicate (nat ?n) Null), currentPlayer := Black,
                  gameStatus := Playing, winningPositions := None, history := [], lastMove := None,
                  players_black := (players_black g)\<lparr> timeUsed := 0, moveCount := 0 \<rparr>,
                  players_white := (players_white g)\<lparr> timeUsed := 0, moveCount := 0 \<rparr> \<rparr>"
    by (auto simp: reset_def emptyBoard_def split: if_splits)
  show ?thesis
    unfolding g' engine_inv_def using n
    by (simp add: wf_game_def wf_board_def list_all_iff log_consistent_def)
qed

lemma setGameStatus_inv:
  assumes "engine_inv g" and "gameStatus g \<noteq> BlackWin" "gameStatus g \<noteq> WhiteWin"
    and "s \<noteq> BlackWin" "s \<noteq> WhiteWin"
  shows "engine_inv (setGameStatus g s)"
  using assms
  by (simp add: engine_inv_def setGameStatus_def wf_game_def log_consistent_def isValidPosition_def)

lemma updatePlayerInfo_inv:
  assumes "engine_inv g"
  shows "engine_inv (updatePlayerInfo g s info)"
  using assms
  by (simp add: engine_inv_def updatePlayerInfo_def wf_game_def log_consistent_def isValidPosition_def)

lemma reachable_inv: "reachable g \<Longrightarrow> engine_inv g"
proof (induction rule: reachable.induct)
  case (constructed pc g)
  then show ?case by (rule new_Game_inv)
next
  case (placed g p now ok g')
  then show ?case using placeStone_inv by blast
next
  case (undone g ok g')
  then show ?case using undo_inv by blast
next
  case (was_reset g g')
  then show ?case using reset_inv by blast
next
  case (paused g)
  then show ?case by (intro setGameStatus_inv) simp_all
next
  case (resumed g)
  then show ?case by (intro setGameStatus_inv) simp_all
next
  case (informed g s info)
  from updatePlayerInfo_inv[OF informed.IH] show ?case .
qed

lemma reachable_placeStones:
  "reachable g \<Longrightarrow> placeStones g moves = Inr (k, g') \<Longrightarrow> reachable g'"
proof (induction moves arbitrary: g k)
  case Nil
  then show ?case by simp
next
  case (Cons m moves)
  obtain p now where m: "m = (p, now)" by (cases m)
  from Cons.prems(2) obtain ok g1 k1 where
    1: "placeStone g p now = Inr (ok, g1)" and 2: "placeStones g1 moves = Inr (k1, g')"
    unfolding m by (auto split: sum.splits prod.splits)
  from reachable.placed[OF Cons.prems(1) 1] have "reachable g1" .
  from Cons.IH[OF this 2] show ?case .
qed

lemma win_detection_general:
  assumes "wf_game g" and "gameStatus g = Playing"
    and "isValidPosition g p" and "readCell (board g) (row p) (col p) = Inr Null"
  shows "\<exists>g'. placeStone g p now = Inr (True, g') \<and>
           (case find (\<lambda>d. runThrough (board g') (boardSize (config g)) (currentPlayer g) p d
                              (winCount (config g))) axes of
              Some d \<Rightarrow>
                gameStatus g' = winStatus (currentPlayer g) \<and>
                (\<exists>line. winningPositions g' = Some line \<and>
                        winCount (config g) \<le> int (length line) \<and>
                        (\<forall>q\<in>set line. cellIs (board g') (boardSize (config g))
                                          (Has (currentPlayer g)) (row q) (col q)) \<and>
                        contiguousLine line p d \<and> p \<in> set line)
            | None \<Rightarrow>
                gameStatus g' \<noteq> BlackWin \<and> gameStatus g' \<noteq> WhiteWin \<and>
                winningPositions g' = winningPositions g)"
proof -
  let ?g2 = "stonePlaced g p now"
  let ?f = "find (\<lambda>d. runThrough (board ?g2) (boardSize (config g)) (currentPlayer g) p d
                              (winCount (config g))) axes"
  note out = placeStone_outcome(3)[OF assms, of now]
  show ?thesis
  proof (cases ?f)
    case None
    let ?g' = "if boardFull (board ?g2) (boardSize (config g))
               then ?g2\<lparr> gameStatus := Draw \<rparr>
               else ?g2\<lparr> currentPlayer := otherStone (currentPlayer g) \<rparr>"
    from out None have ps: "placeStone g p now = Inr (True, ?g')" by simp
    have b: "board ?g' = board ?g2" by simp
    have "gameStatus ?g' \<noteq> BlackWin \<and> gameStatus ?g' \<noteq> WhiteWin \<and>
          winningPositions ?g' = winningPositions g"
      using assms(2) by simp
    with None show ?thesis
      by (intro exI[of _ ?g'] conjI ps) (simp only: b option.case, simp)
  next
    case (Some d)
    with out obtain line where
      L: "placeStone g p now =
            Inr (True, ?g2\<lparr> winningPositions := Some line,
                         gameStatus := winStatus (currentPlayer g) \<rparr>)"
         "winCount (config g) \<le> int (length line)"
         "contiguousLine line p d"
         "\<forall>q\<in>set line. cellIs (board ?g2) (boardSize (config g)) (Has (currentPlayer g)) (row q) (col q)"
      by auto
    let ?g' = "?g2\<lparr> winningPositions := Some line, gameStatus := winStatus (currentPlayer g) \<rparr>"
    have b: "board ?g' = board ?g2" by simp
    have "gameStatus ?g' = winStatus (currentPlayer g) \<and>
                (\<exists>line. winningPositions ?g' = Some line \<and>
                        winCount (config g) \<le> int (length line) \<and>
                        (\<forall>q\<in>set line. cellIs (board ?g2) (boardSize (config g))
                                          (Has (currentPlayer g)) (row q) (col q)) \<and>
                        contiguousLine line p d \<and> p \<in> set line)"
      using L(2,3,4) contiguousLine_through[OF L(3)] by simp
    with Some show ?thesis
      by (intro exI[of _ ?g'] conjI L(1)) (simp only: b option.case)
  qed
qed

section \<open>The example engines are reachable\<close>

lemma fresh3_constructed: "new_Game cfg3 = Inr fresh3"
  by code_simp

lemma almost3_played: "placeStones fresh3 moves3 = Inr (4, almost3)"
  by code_simp

lemma freshDefault_constructed: "new_Game cfgDefault = Inr freshDefault"
  by code_simp

lemma scenarioBefore_played: "placeStones freshDefault scenarioMoves = Inr (8, scenarioBefore)"
  by code_simp

lemma fresh35_constructed: "new_Game cfg35 = Inr fresh35"
  by code_simp

lemma nearlyFull35_played: "placeStones fresh35 moves35 = Inr (8, nearlyFull35)"
  by code_simp

lemma fresh25_constructed: "new_Game cfg25 = Inr fresh25"
  by code_simp

section \<open>Properties of the engine\<close>

text \<open>
  C1. In a reachable engine whose status is Playing, placing at an in-bounds empty
  position \<open>p\<close> succeeds. The axes are tried in the order horizontal, vertical, main
  diagonal, anti-diagonal. If some axis carries a contiguous run of at least
  \<open>winCount\<close> stones of the mover through \<open>p\<close>, then, for the first such axis \<open>d\<close>, the
  status becomes the mover's win and the winning line has at least \<open>winCount\<close>
  positions, each holding the mover's stone, which are exactly a gap-free stretch of
  axis \<open>d\<close> around \<open>p\<close>, \<open>p\<close> included. If no axis qualifies, the status is not a win
  and the winning line stays absent.
\<close>

theorem placeStone_win_detection:
  assumes "reachable g" and "gameStatus g = Playing"
    and "isValidPosition g p" and "readCell (board g) (row p) (col p) = Inr Null"
  shows "\<exists>g'. placeStone g p now = Inr (True, g') \<and>
           (case find (\<lambda>d. runThrough (board g') (boardSize (config g)) (currentPlayer g) p d
                              (winCount (config g))) axes of
              Some d \<Rightarrow>
                gameStatus g' = winStatus (currentPlayer g) \<and>
                (\<exists>line. winningPositions g' = Some line \<and>
                        winCount (config g) \<le> int (length line) \<and>
                        (\<forall>q\<in>set line. cellIs (board g') (boardSize (config g))
                                          (Has (currentPlayer g)) (row q) (col q)) \<and>
                        contiguousLine line p d \<and> p \<in> set line)
            | None \<Rightarrow>
                gameStatus g' \<noteq> BlackWin \<and> gameStatus g' \<noteq> WhiteWin \<and>
                winningPositions g' = None)"
proof -
  from reachable_inv[OF assms(1)] assms(2) have wf: "wf_game g" and none: "winningPositions g = None"
    by (simp_all add: engine_inv_def)
  from win_detection_general[OF wf assms(2,3,4), of now] show ?thesis
    unfolding none .
qed

theorem placeStone_win_detection_witness:
  "reachable almost3 \<and> gameStatus almost3 = Playing \<and>
   isValidPosition almost3 \<lparr> row = 0, col = 2 \<rparr> \<and>
   readCell (board almost3) 0 2 = Inr Null \<and>
   placeStone almost3 \<lparr> row = 0, col = 2 \<rparr> 5 = Inr (True, won3) \<and>
   gameStatus won3 = BlackWin \<and>
   winningPositions won3 =
     Some [\<lparr> row = 0, col = 2 \<rparr>, \<lparr> row = 0, col = 1 \<rparr>, \<lparr> row = 0, col = 0 \<rparr>] \<and>
   placeStone almost3 \<lparr> row = 2, col = 2 \<rparr> 5 = Inr (True, quiet3) \<and>
   gameStatus quiet3 = Playing \<and> winningPositions quiet3 = None"
proof -
  have h1: "reachable almost3"
    by (rule reachable_placeStones[OF reachable.constructed[OF fresh3_constructed] almost3_played])
  have h2: "gameStatus almost3 = Playing" by code_simp
  have h3: "isValidPosition almost3 \<lparr> row = 0, col = 2 \<rparr>" by code_simp
  have h4: "readCell (board almost3) (row \<lparr> row = 0, col = 2 \<rparr>) (col \<lparr> row = 0, col = 2 \<rparr>) = Inr Null"
    by code_simp
  have h5: "isValidPosition almost3 \<lparr> row = 2, col = 2 \<rparr>" by code_simp
  have h6: "readCell (board almost3) (row \<lparr> row = 2, col = 2 \<rparr>) (col \<lparr> row = 2, col = 2 \<rparr>) = Inr Null"
    by code_simp
  have e1: "placeStone almost3 \<lparr> row = 0, col = 2 \<rparr> 5 = Inr (True, won3)" by code_simp
  have e2: "placeStone almost3 \<lparr> row = 2, col = 2 \<rparr> 5 = Inr (True, quiet3)" by code_simp
  have e3: "gameStatus won3 = BlackWin \<and>
            winningPositions won3 =
              Some [\<lparr> row = 0, col = 2 \<rparr>, \<lparr> row = 0, col = 1 \<rparr>, \<lparr> row = 0, col = 0 \<rparr>] \<and>
            gameStatus quiet3 = Playing \<and> winningPositions quiet3 = None"
    by code_simp
  note t1 = placeStone_win_detection[OF h1 h2 h3 h4, of 5]
  note t2 = placeStone_win_detection[OF h1 h2 h5 h6, of 5]
  from t1 t2 h1 h2 h3 h4 e1 e2 e3 show ?thesis by simp
qed

text \<open>
  C2. In a well-formed engine, a placement at a position that is out of bounds, or whose
  cell holds a stone, or made while the status is not Playing, returns \<open>false\<close> and
  leaves the whole engine as it was: board, log, status, current player, last move,
  winning line and both move counters.
\<close>

theorem placeStone_rejects:
  assumes "wf_game g"
    and "\<not> isValidPosition g p \<or> (\<exists>s. readCell (board g) (row p) (col p) = Inr (Has s))
         \<or> gameStatus g \<noteq> Playing"
  shows "placeStone g p now = Inr (False, g)"
  using placeStone_cases[OF assms(1), of p now] assms(2) by auto

theorem placeStone_rejects_witness:
  "wf_game almost3 \<and> \<not> isValidPosition almost3 \<lparr> row = 3, col = 0 \<rparr> \<and>
   placeStone almost3 \<lparr> row = 3, col = 0 \<rparr> 5 = Inr (False, almost3) \<and>
   readCell (board almost3) 0 0 = Inr (Has Black) \<and>
   placeStone almost3 \<lparr> row = 0, col = 0 \<rparr> 5 = Inr (False, almost3) \<and>
   wf_game won3 \<and> gameStatus won3 \<noteq> Playing \<and>
   placeStone won3 \<lparr> row = 2, col = 2 \<rparr> 6 = Inr (False, won3)"
proof -
  have h1: "wf_game almost3" by code_simp
  have h2: "\<not> isValidPosition almost3 \<lparr> row = 3, col = 0 \<rparr>" by code_simp
  have h3: "readCell (board almost3) (row \<lparr> row = 0, col = 0 \<rparr>) (col \<lparr> row = 0, col = 0 \<rparr>) = Inr (Has Black)"
    by code_simp
  have h4: "wf_game won3" by code_simp
  have h5: "gameStatus won3 \<noteq> Playing" by code_simp
  have t1: "placeStone almost3 \<lparr> row = 3, col = 0 \<rparr> 5 = Inr (False, almost3)"
    by (rule placeStone_rejects[OF h1]) (simp add: h2)
  have t2: "placeStone almost3 \<lparr> row = 0, col = 0 \<rparr> 5 = Inr (False, almost3)"
    by (rule placeStone_rejects[OF h1]) (use h3 in blast)
  have t3: "placeStone won3 \<lparr> row = 2, col = 2 \<rparr> 6 = Inr (False, won3)"
    by (rule placeStone_rejects[OF h4]) (simp add: h5)
  from h1 h2 h3 h4 h5 t1 t2 t3 show ?thesis by simp
qed

text \<open>
  C3, as stated, fails: after the line of play of the default game, Black's placement
  at (7,11) returns \<open>true\<close> and wins; the \<open>undo\<close> that follows returns \<open>false\<close> and
  the board keeps the stone.
\<close>

theorem place_then_undo_counterexample:
  "wf_game scenarioBefore \<and> log_consistent scenarioBefore \<and>
   gameStatus scenarioBefore = Playing \<and>
   placeStone scenarioBefore \<lparr> row = 7, col = 11 \<rparr> 9 = Inr (True, scenarioAfter) \<and>
   undo scenarioAfter = Inr (False, scenarioAfter) \<and>
   board scenarioAfter \<noteq> board scenarioBefore"
  by code_simp

text \<open>
  C3, amended. From a well-formed engine with a consistent log, a placement that returns
  \<open>true\<close> and leaves the status Playing (it neither wins nor fills the board),
  followed at once by \<open>undo\<close>: the \<open>undo\<close> returns \<open>true\<close> and the board, the log,
  the current player and the last move are those before the placement.
\<close>

theorem place_then_undo:
  assumes wf: "wf_game g" and lc: "log_consistent g"
    and ps: "placeStone g p now = Inr (True, g')"
    and still: "gameStatus g' = Playing"
  shows "\<exists>g''. undo g' = Inr (True, g'') \<and>
           board g'' = board g \<and> history g'' = history g \<and>
           currentPlayer g'' = currentPlayer g \<and> lastMove g'' = lastMove g"
proof -
  let ?n = "boardSize (config g)" and ?s = "currentPlayer g" and ?g2 = "stonePlaced g p now"
  let ?b = "board g"
  let ?b' = "?b[nat (row p) := (?b ! nat (row p))[nat (col p) := Has ?s]]"
  note pre = placeStone_True_pre[OF wf ps]
  from pre(1) have in_b: "0 \<le> row p" "row p < ?n" "0 \<le> col p" "col p < ?n"
    by (simp_all add: isValidPosition_def)
  from wf have wfb: "wf_board ?b ?n" by (simp add: wf_game_def)
  from wf_board_readCell(1)[OF wfb in_b] pre(2) have null: "?b ! nat (row p) ! nat (col p) = Null"
    by simp
  have wfb': "wf_board ?b' ?n" by (rule wf_board_update(2)[OF wfb in_b]) simp
  have undone: "?b'[nat (row p) := (?b' ! nat (row p))[nat (col p) := Null]] = ?b"
  proof -
    from wfb in_b have rl: "nat (row p) < length ?b" by (auto simp: wf_board_def)
    have "(?b' ! nat (row p))[nat (col p) := Null] = ?b ! nat (row p)"
      using rl null list_update_id[of "?b ! nat (row p)" "nat (col p)"] by simp
    then show ?thesis by simp
  qed
  have wr: "writeCell ?b' (row p) (col p) Null = Inr ?b"
    using wf_board_update(1)[OF wfb' in_b, of Null] undone by simp
  have g': "g' = ?g2\<lparr> currentPlayer := otherStone ?s \<rparr>"
  proof (cases "find (\<lambda>d. runThrough (board ?g2) ?n ?s p d (winCount (config g))) axes")
    case None
    with placeStone_outcome(3)[OF wf pre(3) pre(1) pre(2), of now] ps still
    show ?thesis by (auto split: if_splits)
  next
    case (Some d)
    with placeStone_outcome(3)[OF wf pre(3) pre(1) pre(2), of now] ps still
    show ?thesis by (auto simp: winStatus_def split: if_splits)
  qed
  from lc have lm: "lastMove g = (if history g = [] then None else Some (position (last (history g))))"
    and cp: "history g = [] \<longrightarrow> currentPlayer g = Black"
    by (simp_all add: log_consistent_def)
  let ?g' = "?g2\<lparr> currentPlayer := otherStone ?s \<rparr>"
  let ?item = "\<lparr> position = p, stone = ?s,
                 moveNumber = int (length (history g)) + 1, timestamp = now \<rparr>"
  have h: "history ?g' = history g @ [?item]" "gameStatus ?g' = Playing" "board ?g' = ?b'"
    using pre(3) by simp_all
  have "undo ?g' =
          Inr (True, (decMoveCount ?s (?g'\<lparr> history := history g, board := ?b \<rparr>))
                       \<lparr> lastMove := lastMove g, currentPlayer := ?s \<rparr>)"
    unfolding undo_def h using wr lm cp by (simp add: Let_def)
  then show ?thesis unfolding g' by simp
qed

theorem place_then_undo_witness:
  "wf_game almost3 \<and> log_consistent almost3 \<and>
   placeStone almost3 \<lparr> row = 2, col = 2 \<rparr> 5 = Inr (True, quiet3) \<and>
   gameStatus quiet3 = Playing \<and>
   (\<exists>g''. undo quiet3 = Inr (True, g'') \<and>
      board g'' = board almost3 \<and> history g'' = history almost3 \<and>
      currentPlayer g'' = currentPlayer almost3 \<and> lastMove g'' = lastMove almost3)"
proof -
  have h1: "wf_game almost3" by code_simp
  have h2: "log_consistent almost3" by code_simp
  have h3: "placeStone almost3 \<lparr> row = 2, col = 2 \<rparr> 5 = Inr (True, quiet3)" by code_simp
  have h4: "gameStatus quiet3 = Playing" by code_simp
  from place_then_undo[OF h1 h2 h3 h4] h1 h2 h3 h4 show ?thesis by (simp only: simp_thms)
qed

text \<open>
  C4. Start from a freshly constructed engine and make any sequence of \<open>placeStone\<close>
  calls. The calls all return, and in the state reached the number of non-empty cells
  equals the length of the log, which is the number \<open>k\<close> of calls that returned
  \<open>true\<close>. If none of them ended the game, that is, the status is still Playing,
  the current player is Black for even \<open>k\<close> and White for odd \<open>k\<close>. Every
  intermediate state is the state reached by a prefix of the sequence.
\<close>

theorem placeStones_count_and_turn:
  assumes "new_Game pc = Inr g0"
  shows "\<exists>k g. placeStones g0 moves = Inr (k, g) \<and>
           nonEmptyCount (board g) = length (history g) \<and>
           length (history g) = k \<and>
           (gameStatus g = Playing \<longrightarrow> currentPlayer g = (if even k then Black else White))"
proof -
  note f = new_Game_fresh[OF assms]
  have "turn_inv g0" using f by (simp add: turn_inv_def)
  from turn_inv_placeStones[OF this, of moves] f(2)
  show ?thesis by (auto simp: turn_inv_def)
qed

theorem placeStones_count_and_turn_witness:
  "new_Game cfg3 = Inr fresh3 \<and> placeStones fresh3 moves3 = Inr (4, almost3) \<and>
   nonEmptyCount (board almost3) = 4 \<and> length (history almost3) = 4 \<and>
   gameStatus almost3 = Playing \<and> currentPlayer almost3 = Black"
proof -
  have h1: "new_Game cfg3 = Inr fresh3" by code_simp
  have e: "placeStones fresh3 moves3 = Inr (4, almost3)" by code_simp
  have s: "gameStatus almost3 = Playing" by code_simp
  from placeStones_count_and_turn[OF h1, of moves3] h1 e s show ?thesis by simp
qed

text \<open>
  C5. After a placement that returns \<open>true\<close> in a well-formed engine, the status is
  Draw exactly when every cell of the board holds a stone and no axis carries a run of
  at least \<open>winCount\<close> stones of the mover through the placed position; and exactly
  when \<open>getEmptyPositions\<close> returns the empty list and the status is not a win.
\<close>

theorem placeStone_draw_iff:
  assumes wf: "wf_game g" and ps: "placeStone g p now = Inr (True, g')"
  shows "(gameStatus g' = Draw \<longleftrightarrow>
            boardFull (board g') (boardSize (config g')) \<and>
            \<not> (\<exists>d\<in>set axes. runThrough (board g') (boardSize (config g')) (currentPlayer g) p d
                                 (winCount (config g')))) \<and>
         (gameStatus g' = Draw \<longleftrightarrow>
            getEmptyPositions g' = Inr [] \<and> gameStatus g' \<noteq> BlackWin \<and> gameStatus g' \<noteq> WhiteWin)"
proof -
  let ?g2 = "stonePlaced g p now"
  let ?n = "boardSize (config g)" and ?s = "currentPlayer g" and ?w = "winCount (config g)"
  let ?P = "\<lambda>d. runThrough (board ?g2) ?n ?s p d ?w"
  note pre = placeStone_True_pre[OF wf ps]
  note out = placeStone_outcome[OF wf pre(3) pre(1) pre(2), of now]
  have ex: "(\<exists>d\<in>set axes. ?P d) \<longleftrightarrow> find ?P axes \<noteq> None"
    unfolding find_None_iff by blast
  show ?thesis
  proof (cases "find ?P axes")
    case None
    with out(3) ps have g': "g' = (if boardFull (board ?g2) ?n
                    then ?g2\<lparr> gameStatus := Draw \<rparr>
                    else ?g2\<lparr> currentPlayer := otherStone ?s \<rparr>)"
      by simp
    have sel: "board g' = board ?g2" "config g' = config g"
      "gameStatus g' = (if boardFull (board ?g2) ?n then Draw else Playing)"
      unfolding g' using pre(3) by simp_all
    have wf': "wf_game g'" using out(1) unfolding wf_game_def sel by simp
    show ?thesis
      unfolding getEmptyPositions_empty_iff[OF wf'] unfolding sel using None ex by simp
  next
    case (Some d)
    with out(3) ps obtain line where
      g': "g' = ?g2\<lparr> winningPositions := Some line, gameStatus := winStatus ?s \<rparr>"
      by auto
    have sel: "board g' = board ?g2" "config g' = config g" "gameStatus g' = winStatus ?s"
      unfolding g' by simp_all
    from Some ex have "\<exists>d\<in>set axes. ?P d" by simp
    then show ?thesis unfolding sel by (auto simp: winStatus_def)
  qed
qed

theorem placeStone_draw_iff_witness:
  "wf_game nearlyFull35 \<and>
   placeStone nearlyFull35 \<lparr> row = 2, col = 2 \<rparr> 9 = Inr (True, drawn35) \<and>
   gameStatus drawn35 = Draw \<and>
   boardFull (board drawn35) (boardSize (config drawn35)) \<and>
   getEmptyPositions drawn35 = Inr [] \<and>
   wf_game almost3 \<and> placeStone almost3 \<lparr> row = 2, col = 2 \<rparr> 5 = Inr (True, quiet3) \<and>
   gameStatus quiet3 \<noteq> Draw \<and>
   getEmptyPositions quiet3 \<noteq> Inr []"
proof -
  have h1: "wf_game nearlyFull35" by code_simp
  have h2: "placeStone nearlyFull35 \<lparr> row = 2, col = 2 \<rparr> 9 = Inr (True, drawn35)" by code_simp
  have s1: "gameStatus drawn35 = Draw" by code_simp
  have h3: "wf_game almost3" by code_simp
  have h4: "placeStone almost3 \<lparr> row = 2, col = 2 \<rparr> 5 = Inr (True, quiet3)" by code_simp
  have s2: "gameStatus quiet3 \<noteq> Draw" "gameStatus quiet3 \<noteq> BlackWin" "gameStatus quiet3 \<noteq> WhiteWin"
    by code_simp+
  from placeStone_draw_iff[OF h1 h2] placeStone_draw_iff[OF h3 h4] h1 h2 h3 h4 s1 s2
  show ?thesis by simp
qed

text \<open>
  C9, as stated, fails: the constructor accepts board size 2 with five to win and keeps
  both numbers.
\<close>

theorem new_Game_accepts_config_counterexample:
  "new_Game cfg25 = Inr fresh25 \<and>
   boardSize (config fresh25) = 2 \<and> winCount (config fresh25) = 5 \<and>
   winCount (config fresh25) > boardSize (config fresh25)"
  by code_simp

text \<open>
  C9, amended. A config whose \<open>winCount\<close> exceeds its \<open>boardSize\<close> is accepted
  unchanged: whenever the board size is an array length (\<open>0 \<le> boardSize < 2^32\<close>) the
  constructor returns an engine that holds the given board size and win count and an
  empty board of that size. The result is a function of the config alone.
\<close>

theorem new_Game_accepts_config:
  assumes "boardSize_opt pc = Some n" and "winCount_opt pc = Some w"
    and "w > n" and "0 \<le> n" and "n < 2 ^ 32"
  shows "\<exists>g. new_Game pc = Inr g \<and> boardSize (config g) = n \<and> winCount (config g) = w \<and>
             board g = replicate (nat n) (replicate (nat n) Null)"
  using assms by (simp add: new_Game_def mergeConfig_def emptyBoard_def Let_def)

theorem new_Game_accepts_config_witness:
  "boardSize_opt cfg25 = Some 2 \<and> winCount_opt cfg25 = Some 5 \<and> (5::int) > 2 \<and>
   new_Game cfg25 = Inr fresh25 \<and>
   boardSize (config fresh25) = 2 \<and> winCount (config fresh25) = 5"
proof -
  have h1: "boardSize_opt cfg25 = Some 2" by (simp add: cfg25_def)
  have h2: "winCount_opt cfg25 = Some 5" by (simp add: cfg25_def)
  have e: "new_Game cfg25 = Inr fresh25" by code_simp
  from new_Game_accepts_config[OF h1 h2] h1 h2 e show ?thesis by simp
qed

section \<open>Lemmas about the move selector\<close>

lemma walk_scan:
  assumes "n = int (length b)"
  shows "\<exists>ps. walk b n (Has s) d r c = Inr ps \<and>
              scan b s d r c k =
                (k + int (length ps), r + int (length ps) * fst d, c + int (length ps) * snd d)"
  using assms
proof (induction b n "Has s" d r c arbitrary: k rule: walk.induct)
  case (1 b n dr dc r c)
  show ?case
  proof (cases "(dr \<noteq> 0 \<or> dc \<noteq> 0) \<and> r \<ge> 0 \<and> r < n \<and> c \<ge> 0 \<and> c < n")
    case False
    have "walk b n (Has s) (dr, dc) r c = Inr []"
      by (subst walk.simps, simp only: False if_False)
    moreover from False have F': "\<not> ((dr \<noteq> 0 \<or> dc \<noteq> 0) \<and> r \<ge> 0 \<and> r < int (length b) \<and>
                                   c \<ge> 0 \<and> c < int (length b))"
      unfolding "1.prems" .
    have "scan b s (dr, dc) r c k = (k, r, c)"
    proof (subst scan.simps)
      have "\<not> ((dr \<noteq> 0 \<or> dc \<noteq> 0) \<and> r \<ge> 0 \<and> r < int (length b) \<and>
               c \<ge> 0 \<and> c < int (length b) \<and> readCell b r c = Inr (Has s))"
        using F' by blast
      then show "(if (dr \<noteq> 0 \<or> dc \<noteq> 0) \<and> r \<ge> 0 \<and> r < int (length b) \<and>
               c \<ge> 0 \<and> c < int (length b) \<and> readCell b r c = Inr (Has s)
            then scan b s (dr, dc) (r + dr) (c + dc) (k + 1) else (k, r, c)) = (k, r, c)"
        by (simp only: if_False)
    qed
    ultimately show ?thesis by (simp del: scan.simps walk.simps)
  next
    case True
    with "1.prems" have "0 \<le> r \<and> r < int (length b)" by simp
    then obtain x where x: "readCell b r c = Inr x" by (auto simp: readCell_def)
    show ?thesis
    proof (cases "x = Has s")
      case False
      with x True have "walk b n (Has s) (dr, dc) r c = Inr []"
        by (subst walk.simps) (simp del: walk.simps)
      moreover from False x have "scan b s (dr, dc) r c k = (k, r, c)"
        by (subst scan.simps) (simp del: scan.simps)
      ultimately show ?thesis by (simp del: scan.simps walk.simps)
    next
      case T: True
      from "1.hyps"[OF True x T "1.prems", of "k + 1"] obtain ps where
        ps: "walk b n (Has s) (dr, dc) (r + dr) (c + dc) = Inr ps"
            "scan b s (dr, dc) (r + dr) (c + dc) (k + 1) =
               (k + 1 + int (length ps), r + dr + int (length ps) * fst (dr, dc),
                c + dc + int (length ps) * snd (dr, dc))"
        by blast
      have w: "walk b n (Has s) (dr, dc) r c = Inr (\<lparr> row = r, col = c \<rparr> # ps)"
        using True x T ps(1) by (subst walk.simps) (simp del: walk.simps)
      have s: "scan b s (dr, dc) r c k = scan b s (dr, dc) (r + dr) (c + dc) (k + 1)"
        using True x T "1.prems" by (subst scan.simps) (simp del: scan.simps)
      show ?thesis
        unfolding w s ps(2)
        by (intro exI[of _ "\<lparr> row = r, col = c \<rparr> # ps"])
           (simp add: algebra_simps del: scan.simps walk.simps)
    qed
  qed
qed

lemma loops_agree:
  assumes "boardSize (config g) = int (length (board g))"
  shows "\<exists>g'. checkWin_loop g (Has s) p ds =
               Inr (checkWinAt_loop (board g) p s (winCount (config g)) ds, g')"
proof (induction ds)
  case Nil
  then show ?case by simp
next
  case (Cons direction ds)
  let ?b = "board g" and ?n = "boardSize (config g)"
  from walk_scan[OF assms, of s "fst direction" "row p + fst (fst direction)" "col p + snd (fst direction)" 1]
  obtain ps1 where 1:
    "walk ?b ?n (Has s) (fst direction) (row p + fst (fst direction)) (col p + snd (fst direction)) = Inr ps1"
    "fst (scan ?b s (fst direction) (row p + fst (fst direction)) (col p + snd (fst direction)) 1)
       = 1 + int (length ps1)"
    by (auto simp del: scan.simps walk.simps)
  from walk_scan[OF assms, of s "snd direction" "row p + fst (snd direction)" "col p + snd (snd direction)"
       "1 + int (length ps1)"]
  obtain ps2 where 2:
    "walk ?b ?n (Has s) (snd direction) (row p + fst (snd direction)) (col p + snd (snd direction)) = Inr ps2"
    "fst (scan ?b s (snd direction) (row p + fst (snd direction)) (col p + snd (snd direction))
            (1 + int (length ps1)))
       = 1 + int (length ps1) + int (length ps2)"
    by (auto simp del: scan.simps walk.simps)
  have ax: "axisPositions ?b ?n (Has s) p direction = Inr (\<lparr> row = row p, col = col p \<rparr> # ps1 @ ps2)"
    using 1(1) 2(1) by (simp add: axisPositions_def del: walk.simps)
  show ?case
  proof (cases "winCount (config g) \<le> 1 + int (length ps1) + int (length ps2)")
    case True
    then show ?thesis using ax 1(2) 2(2) by (simp add: Let_def del: scan.simps walk.simps)
  next
    case False
    then show ?thesis using ax 1(2) 2(2) Cons.IH by (simp add: Let_def del: scan.simps walk.simps)
  qed
qed

declare scan.simps [simp del]

lemma scan_stop:
  "\<not> ((dr \<noteq> 0 \<or> dc \<noteq> 0) \<and> r \<ge> 0 \<and> r < int (length b) \<and> c \<ge> 0 \<and> c < int (length b) \<and>
      readCell b r c = Inr (Has s)) \<Longrightarrow>
   scan b s (dr, dc) r c k = (k, r, c)"
  by (subst scan.simps, simp only: if_False)

lemma scan_step:
  "(dr \<noteq> 0 \<or> dc \<noteq> 0) \<and> r \<ge> 0 \<and> r < int (length b) \<and> c \<ge> 0 \<and> c < int (length b) \<and>
      readCell b r c = Inr (Has s) \<Longrightarrow>
   scan b s (dr, dc) r c k = scan b s (dr, dc) (r + dr) (c + dc) (k + 1)"
  by (subst scan.simps) simp

lemma scan_char:
  assumes nz: "fst d \<noteq> 0 \<or> snd d \<noteq> 0"
  shows "\<exists>m::nat.
           scan b s d r c k = (k + int m, r + int m * fst d, c + int m * snd d) \<and>
           (\<forall>i<m. matchesAt b s \<lparr> row = r + int i * fst d, col = c + int i * snd d \<rparr>) \<and>
           \<not> matchesAt b s \<lparr> row = r + int m * fst d, col = c + int m * snd d \<rparr>"
  using nz
proof (induction b s d r c k rule: scan.induct)
  case (1 b s dr dc r c k)
  let ?cond = "(dr \<noteq> 0 \<or> dc \<noteq> 0) \<and> r \<ge> 0 \<and> r < int (length b) \<and> c \<ge> 0 \<and> c < int (length b) \<and>
         readCell b r c = Inr (Has s)"
  from "1.prems" have nz: "dr \<noteq> 0 \<or> dc \<noteq> 0" by simp
  have m_iff: "matchesAt b s \<lparr> row = r, col = c \<rparr> \<longleftrightarrow> ?cond"
    using nz by (auto simp: matchesAt_def inBounds_def)
  show ?case
  proof (cases ?cond)
    case False
    have "scan b s (dr, dc) r c k = (k, r, c)"
      by (rule scan_stop[OF False])
    moreover from False m_iff have "\<not> matchesAt b s \<lparr> row = r, col = c \<rparr>" by blast
    ultimately show ?thesis by (intro exI[of _ 0]) simp
  next
    case True
    from "1.IH"[OF True "1.prems"] obtain m where m:
      "scan b s (dr, dc) (r + dr) (c + dc) (k + 1) =
         (k + 1 + int m, r + dr + int m * dr, c + dc + int m * dc)"
      "\<forall>i<m. matchesAt b s \<lparr> row = r + dr + int i * dr, col = c + dc + int i * dc \<rparr>"
      "\<not> matchesAt b s \<lparr> row = r + dr + int m * dr, col = c + dc + int m * dc \<rparr>"
      by auto
    have e: "r + dr + int i * dr = r + int (Suc i) * dr" "c + dc + int i * dc = c + int (Suc i) * dc" for i
      by (simp_all add: algebra_simps)
    have s1: "scan b s (dr, dc) r c k = scan b s (dr, dc) (r + dr) (c + dc) (k + 1)"
      by (rule scan_step[OF True])
    have A: "scan b s (dr, dc) r c k =
               (k + int (Suc m), r + int (Suc m) * fst (dr, dc), c + int (Suc m) * snd (dr, dc))"
      unfolding s1 m(1) by (simp add: algebra_simps)
    have B: "\<forall>i<Suc m. matchesAt b s \<lparr> row = r + int i * fst (dr, dc), col = c + int i * snd (dr, dc) \<rparr>"
    proof (intro allI impI)
      fix i assume i: "i < Suc m"
      show "matchesAt b s \<lparr> row = r + int i * fst (dr, dc), col = c + int i * snd (dr, dc) \<rparr>"
      proof (cases i)
        case 0
        with True m_iff show ?thesis by simp
      next
        case (Suc j)
        with i m(2) have "matchesAt b s \<lparr> row = r + dr + int j * dr, col = c + dc + int j * dc \<rparr>"
          by simp
        then show ?thesis unfolding e Suc by simp
      qed
    qed
    have C: "\<not> matchesAt b s \<lparr> row = r + int (Suc m) * fst (dr, dc), col = c + int (Suc m) * snd (dr, dc) \<rparr>"
      using m(3) unfolding e by simp
    from A B C show ?thesis by blast
  qed
qed

lemma takeWhile_upto_length:
  assumes "\<forall>i. a \<le> i \<and> i < a + int m \<longrightarrow> P i"
    and "\<not> P (a + int m)"
    and "a + int m \<le> N + 1"
  shows "length (takeWhile P [a..N]) = m"
  using assms
proof (induction m arbitrary: a)
  case 0
  show ?case
  proof (cases "a \<le> N")
    case True
    then have "[a..N] = a # [a + 1..N]" by (simp add: upto_rec1)
    with 0 show ?thesis by simp
  next
    case False
    then show ?thesis by simp
  qed
next
  case (Suc m)
  then have aN: "a \<le> N" and Pa: "P a" by simp_all
  from aN have l: "[a..N] = a # [a + 1..N]" by (simp add: upto_rec1)
  have "length (takeWhile P [a + 1..N]) = m"
  proof (rule Suc.IH)
    show "\<forall>i. a + 1 \<le> i \<and> i < a + 1 + int m \<longrightarrow> P i" using Suc.prems(1) by simp
    show "\<not> P (a + 1 + int m)" using Suc.prems(2) by (simp add: algebra_simps)
    show "a + 1 + int m \<le> N + 1" using Suc.prems(3) by simp
  qed
  with l Pa show ?case by simp
qed

lemma run_bound:
  assumes nz: "fst d \<noteq> 0 \<or> snd d \<noteq> 0"
    and all: "\<forall>i<m. inBounds b \<lparr> row = r + int i * fst d, col = c + int i * snd d \<rparr>"
  shows "m \<le> length b"
proof (cases m)
  case 0
  then show ?thesis by simp
next
  case (Suc j)
  with all have first: "inBounds b \<lparr> row = r, col = c \<rparr>"
    and last: "inBounds b \<lparr> row = r + int j * fst d, col = c + int j * snd d \<rparr>"
    by (auto dest: spec[of _ 0] spec[of _ j])
  from first last have 1: "\<bar>int j * fst d\<bar> < int (length b)" and 2: "\<bar>int j * snd d\<bar> < int (length b)"
    by (auto simp: inBounds_def)
  from nz have "int j < int (length b)"
  proof
    assume "fst d \<noteq> 0"
    then have "1 \<le> \<bar>fst d\<bar>" by linarith
    from mult_left_mono[OF this, of "int j"] have "int j \<le> \<bar>int j * fst d\<bar>" by (simp add: abs_mult)
    with 1 show ?thesis by linarith
  next
    assume "snd d \<noteq> 0"
    then have "1 \<le> \<bar>snd d\<bar>" by linarith
    from mult_left_mono[OF this, of "int j"] have "int j \<le> \<bar>int j * snd d\<bar>" by (simp add: abs_mult)
    with 2 show ?thesis by linarith
  qed
  with Suc show ?thesis by simp
qed

lemma evalHalf_spec:
  assumes nz: "fst d \<noteq> 0 \<or> snd d \<noteq> 0"
  shows "evalHalf b p s d = (spec_consecutive b s p d, spec_openEnd b s p d)"
proof -
  from scan_char[OF nz, of b s "row p + fst d" "col p + snd d" 0] obtain m :: nat where
    m: "scan b s d (row p + fst d) (col p + snd d) 0 =
          (int m, row p + fst d + int m * fst d, col p + snd d + int m * snd d)"
       "\<forall>i<m. matchesAt b s \<lparr> row = row p + fst d + int i * fst d, col = col p + snd d + int i * snd d \<rparr>"
       "\<not> matchesAt b s \<lparr> row = row p + fst d + int m * fst d, col = col p + snd d + int m * snd d \<rparr>"
    by auto
  have sh: "\<lparr> row = row p + fst d + int i * fst d, col = col p + snd d + int i * snd d \<rparr>
            = shift p d (1 + int i)" for i
    by (simp add: shift_def algebra_simps)
  have bound: "m \<le> length b"
    by (rule run_bound[OF nz, of m b "row p + fst d" "col p + snd d"])
       (use m(2) in \<open>simp add: matchesAt_def\<close>)
  have all: "\<forall>i. 1 \<le> i \<and> i < 1 + int m \<longrightarrow> matchesAt b s (shift p d i)"
  proof (intro allI impI)
    fix i :: int assume i: "1 \<le> i \<and> i < 1 + int m"
    then have "nat (i - 1) < m" by linarith
    with m(2) have "matchesAt b s (shift p d (1 + int (nat (i - 1))))" unfolding sh by blast
    with i show "matchesAt b s (shift p d i)" by simp
  qed
  have stop: "\<not> matchesAt b s (shift p d (1 + int m))" using m(3) unfolding sh .
  have cons: "spec_consecutive b s p d = int m"
    unfolding spec_consecutive_def
    using takeWhile_upto_length[of 1 m "\<lambda>k. matchesAt b s (shift p d k)" "int (length b)"]
      all stop bound by simp
  have far: "\<lparr> row = row p + fst d + int m * fst d, col = col p + snd d + int m * snd d \<rparr>
             = shift p d (int m + 1)"
    unfolding sh by (simp add: add.commute)
  have "evalHalf b p s d =
          (int m, if emptyAt b \<lparr> row = row p + fst d + int m * fst d,
                                 col = col p + snd d + int m * snd d \<rparr> then 1 else 0)"
    unfolding evalHalf_def m(1) by (simp add: emptyAt_def inBounds_def)
  also have "\<dots> = (int m, if emptyAt b (shift p d (int m + 1)) then 1 else 0)"
    unfolding far ..
  finally show ?thesis unfolding spec_openEnd_def cons .
qed

lemma evaluatePosition_loop_spec:
  assumes "\<forall>d\<in>set ds. fst d \<noteq> 0 \<or> snd d \<noteq> 0"
  shows "evaluatePosition_loop b p s score (map (\<lambda>d. (d, opposite d)) ds) =
           score + sum_list (map (\<lambda>d. spec_table (spec_runLength b s p d) (spec_openEnds b s p d)) ds)"
  using assms
proof (induction ds arbitrary: score)
  case Nil
  then show ?case by simp
next
  case (Cons d ds)
  then have nz: "fst d \<noteq> 0 \<or> snd d \<noteq> 0" by simp
  then have nz': "fst (opposite d) \<noteq> 0 \<or> snd (opposite d) \<noteq> 0" by (simp add: opposite_def)
  have tab: "axisScore c e = spec_table c e" for c e
    by (simp add: axisScore_def spec_table_def)
  have "evaluatePosition_loop b p s score (map (\<lambda>d. (d, opposite d)) (d # ds)) =
        evaluatePosition_loop b p s
          (score + spec_table (spec_runLength b s p d) (spec_openEnds b s p d))
          (map (\<lambda>d. (d, opposite d)) ds)"
    by (simp add: Let_def evalHalf_spec[OF nz] evalHalf_spec[OF nz'] tab
          spec_runLength_def spec_openEnds_def)
  also have "\<dots> = score + spec_table (spec_runLength b s p d) (spec_openEnds b s p d) +
      sum_list (map (\<lambda>d. spec_table (spec_runLength b s p d) (spec_openEnds b s p d)) ds)"
    using Cons by simp
  finally show ?case by simp
qed

lemma simulate_restore:
  assumes "readCell b (row p) (col p) = Inr Null"
  shows "writeCell b (row p) (col p) (Has s) = Inr (withStone b p s)"
    and "writeCell (withStone b p s) (row p) (col p) Null = Inr b"
proof -
  let ?r = "row p" and ?c = "col p"
  from assms have r: "0 \<le> ?r" "?r < int (length b)"
    by (auto simp: readCell_def split: if_splits)
  with assms have c: "0 \<le> ?c" "?c < int (length (b ! nat ?r))" and null: "b ! nat ?r ! nat ?c = Null"
    by (auto simp: readCell_def Let_def split: if_splits)
  from r have rl: "nat ?r < length b" by simp
  from c have cl: "nat ?c < length (b ! nat ?r)" by simp
  show "writeCell b ?r ?c (Has s) = Inr (withStone b p s)"
    using r c by (simp add: writeCell_def writeRow_def withStone_def)
  have "(b ! nat ?r)[nat ?c := Has s, nat ?c := Null] = b ! nat ?r"
    using null list_update_id[of "b ! nat ?r" "nat ?c"] by simp
  then have "(withStone b p s)[nat ?r := writeRow (withStone b p s ! nat ?r) ?c Null] = b"
    using r c rl by (simp add: withStone_def writeRow_def)
  then show "writeCell (withStone b p s) ?r ?c Null = Inr b"
    using r by (simp add: writeCell_def withStone_def)
qed

lemma firstWinning_char:
  assumes "\<forall>p\<in>set ps. readCell b (row p) (col p) = Inr Null"
  shows "firstWinning b s w ps =
           (case find (\<lambda>p. checkWinAt (withStone b p s) p s w) ps of
              None \<Rightarrow> Inr (None, b)
            | Some pos \<Rightarrow> Inr (Some pos, withStone b pos s))"
  using assms
proof (induction ps)
  case Nil
  then show ?case by simp
next
  case (Cons p ps)
  then have e: "readCell b (row p) (col p) = Inr Null" by simp
  show ?case
  proof (cases "checkWinAt (withStone b p s) p s w")
    case True
    then show ?thesis by (simp add: simulate_restore[OF e])
  next
    case False
    with Cons show ?thesis by (simp add: simulate_restore[OF e])
  qed
qed

lemma allWinning_char:
  assumes "\<forall>p\<in>set ps. readCell b (row p) (col p) = Inr Null"
  shows "allWinning b s w ps = Inr (filter (\<lambda>p. checkWinAt (withStone b p s) p s w) ps)"
  using assms
proof (induction ps)
  case Nil
  then show ?case by simp
next
  case (Cons p ps)
  then have e: "readCell b (row p) (col p) = Inr Null" by simp
  from Cons show ?case by (simp add: simulate_restore[OF e] Let_def)
qed

lemma find_as_filter:
  "find P xs = (case filter P xs of [] \<Rightarrow> None | x # _ \<Rightarrow> Some x)"
  by (induction xs) simp_all

lemma bestMove_loop_Some:
  "bestMove \<noteq> None \<Longrightarrow> bestMove_loop b mine theirs bestScore bestMove ps \<noteq> None"
  by (induction ps arbitrary: bestScore bestMove) (simp_all add: Let_def)

lemma createBoardCopy_id [simp]: "createBoardCopy b = b"
  by (simp add: createBoardCopy_def)

lemma bestMove_loop_running:
  "bestMove_loop b mine theirs (Some bs) (Some bm) ps =
     (if \<exists>p\<in>set ps. moveScore b mine theirs p > bs
      then find (\<lambda>p. moveScore b mine theirs p > bs \<and>
                      (\<forall>q\<in>set ps. moveScore b mine theirs q \<le> moveScore b mine theirs p)) ps
      else Some bm)"
proof (induction ps arbitrary: bs bm)
  case Nil
  then show ?case by simp
next
  case (Cons p ps)
  let ?f = "moveScore b mine theirs"
  show ?case
  proof (cases "?f p > bs")
    case False
    have "find (\<lambda>x. ?f x > bs \<and> (\<forall>q\<in>set (p # ps). ?f q \<le> ?f x)) (p # ps) =
          find (\<lambda>x. ?f x > bs \<and> (\<forall>q\<in>set ps. ?f q \<le> ?f x)) ps"
    proof -
      have "find (\<lambda>x. ?f x > bs \<and> (\<forall>q\<in>set (p # ps). ?f q \<le> ?f x)) ps =
            find (\<lambda>x. ?f x > bs \<and> (\<forall>q\<in>set ps. ?f q \<le> ?f x)) ps"
        using False by (intro find_cong refl) auto
      with False show ?thesis by simp
    qed
    moreover have "(\<exists>x\<in>set (p # ps). ?f x > bs) \<longleftrightarrow> (\<exists>x\<in>set ps. ?f x > bs)"
      using False by simp
    moreover have "bestMove_loop b mine theirs (Some bs) (Some bm) (p # ps) =
                   bestMove_loop b mine theirs (Some bs) (Some bm) ps"
      using False by (simp add: Let_def)
    ultimately show ?thesis using Cons.IH[of bs bm] by (simp only:)
  next
    case True
    have step: "bestMove_loop b mine theirs (Some bs) (Some bm) (p # ps) =
                bestMove_loop b mine theirs (Some (?f p)) (Some p) ps"
      using True by (simp add: Let_def)
    have ex: "\<exists>x\<in>set (p # ps). ?f x > bs" using True by simp
    show ?thesis
    proof (cases "\<exists>q\<in>set ps. ?f q > ?f p")
      case F: False
      then have "\<forall>q\<in>set (p # ps). ?f q \<le> ?f p" by (auto simp: not_less)
      with True have "find (\<lambda>x. ?f x > bs \<and> (\<forall>q\<in>set (p # ps). ?f q \<le> ?f x)) (p # ps) = Some p"
        by simp
      with F ex show ?thesis unfolding step Cons.IH[of "?f p" p] by (simp only: if_True if_False)
    next
      case T: True
      then have notp: "\<not> (\<forall>q\<in>set (p # ps). ?f q \<le> ?f p)" by (auto simp: not_le)
      have "find (\<lambda>x. ?f x > bs \<and> (\<forall>q\<in>set (p # ps). ?f q \<le> ?f x)) ps =
            find (\<lambda>x. ?f x > ?f p \<and> (\<forall>q\<in>set ps. ?f q \<le> ?f x)) ps"
      proof (intro find_cong refl)
        fix x assume "x \<in> set ps"
        show "(?f x > bs \<and> (\<forall>q\<in>set (p # ps). ?f q \<le> ?f x)) =
              (?f x > ?f p \<and> (\<forall>q\<in>set ps. ?f q \<le> ?f x))"
        proof
          assume a: "?f x > bs \<and> (\<forall>q\<in>set (p # ps). ?f q \<le> ?f x)"
          from T obtain q where "q \<in> set ps" "?f q > ?f p" by blast
          with a have "?f x > ?f p" by force
          with a show "?f x > ?f p \<and> (\<forall>q\<in>set ps. ?f q \<le> ?f x)" by simp
        next
          assume a: "?f x > ?f p \<and> (\<forall>q\<in>set ps. ?f q \<le> ?f x)"
          with True show "?f x > bs \<and> (\<forall>q\<in>set (p # ps). ?f q \<le> ?f x)" by auto
        qed
      qed
      moreover from notp have
        "find (\<lambda>x. ?f x > bs \<and> (\<forall>q\<in>set (p # ps). ?f q \<le> ?f x)) (p # ps) =
         find (\<lambda>x. ?f x > bs \<and> (\<forall>q\<in>set (p # ps). ?f q \<le> ?f x)) ps"
        by (subst find.simps) (simp only: if_False simp_thms)
      ultimately have "find (\<lambda>x. ?f x > bs \<and> (\<forall>q\<in>set (p # ps). ?f q \<le> ?f x)) (p # ps) =
            find (\<lambda>x. ?f x > ?f p \<and> (\<forall>q\<in>set ps. ?f q \<le> ?f x)) ps"
        by (simp only:)
      with T ex show ?thesis unfolding step Cons.IH[of "?f p" p] by (simp only: if_True)
    qed
  qed
qed

lemma bestMove_loop_first_max:
  "bestMove_loop b mine theirs None (case ps of [] \<Rightarrow> None | p0 # _ \<Rightarrow> Some p0) ps =
     find (\<lambda>p. \<forall>q\<in>set ps. moveScore b mine theirs q \<le> moveScore b mine theirs p) ps"
proof (cases ps)
  case Nil
  then show ?thesis by simp
next
  case (Cons p rest)
  let ?f = "moveScore b mine theirs"
  have step: "bestMove_loop b mine theirs None (Some p) (p # rest) =
              bestMove_loop b mine theirs (Some (?f p)) (Some p) rest"
    by (simp add: Let_def)
  show ?thesis
  proof (cases "\<exists>q\<in>set rest. ?f q > ?f p")
    case False
    then have "\<forall>q\<in>set (p # rest). ?f q \<le> ?f p" by (auto simp: not_less)
    then have "find (\<lambda>x. \<forall>q\<in>set (p # rest). ?f q \<le> ?f x) (p # rest) = Some p" by simp
    with False show ?thesis
      unfolding Cons list.case step bestMove_loop_running by (simp only: if_False)
  next
    case True
    then have notp: "\<not> (\<forall>q\<in>set (p # rest). ?f q \<le> ?f p)" by (auto simp: not_le)
    have "find (\<lambda>x. \<forall>q\<in>set (p # rest). ?f q \<le> ?f x) rest =
          find (\<lambda>x. ?f x > ?f p \<and> (\<forall>q\<in>set rest. ?f q \<le> ?f x)) rest"
    proof (intro find_cong refl)
      fix x assume "x \<in> set rest"
      show "(\<forall>q\<in>set (p # rest). ?f q \<le> ?f x) =
            (?f x > ?f p \<and> (\<forall>q\<in>set rest. ?f q \<le> ?f x))"
      proof
        assume a: "\<forall>q\<in>set (p # rest). ?f q \<le> ?f x"
        from True obtain q where "q \<in> set rest" "?f q > ?f p" by blast
        with a have "?f x > ?f p" by force
        with a show "?f x > ?f p \<and> (\<forall>q\<in>set rest. ?f q \<le> ?f x)" by simp
      next
        assume "?f x > ?f p \<and> (\<forall>q\<in>set rest. ?f q \<le> ?f x)"
        then show "\<forall>q\<in>set (p # rest). ?f q \<le> ?f x" by auto
      qed
    qed
    moreover from notp have
      "find (\<lambda>x. \<forall>q\<in>set (p # rest). ?f q \<le> ?f x) (p # rest) =
       find (\<lambda>x. \<forall>q\<in>set (p # rest). ?f q \<le> ?f x) rest"
      by (subst find.simps) (simp only: if_False)
    ultimately have "find (\<lambda>x. \<forall>q\<in>set (p # rest). ?f q \<le> ?f x) (p # rest) =
          find (\<lambda>x. ?f x > ?f p \<and> (\<forall>q\<in>set rest. ?f q \<le> ?f x)) rest"
      by (simp only:)
    with True show ?thesis
      unfolding Cons list.case step bestMove_loop_running by (simp only: if_True)
  qed
qed

section \<open>Properties of the move selector\<close>

text \<open>
  C6. Given a board and a list of positions that are all empty cells of that board, the
  hard tier and the normal tier return without an exception and return the same move, in
  the same priority order: the first position of the list whose simulated placement wins
  for the mover, else the first whose simulated placement wins for the opponent, else
  one and the same fallback, which is a position when the list is not empty. Where the
  exact scores of the model compare as the doubles of the code do, with all rows and
  columns in play below 100, the fallback is the first position of the list whose score
  no position of the list exceeds. The hard tier adds nothing to this.
\<close>

theorem getHardMove_eq_getNormalMove:
  assumes "\<forall>p\<in>set emptyPositions. readCell b (row p) (col p) = Inr Null"
  shows "\<exists>fallback.
           getNormalMove ai b emptyPositions =
             Inr (priorityMove b (aiStone ai) (winCount (config (game ai))) emptyPositions fallback) \<and>
           getHardMove ai b emptyPositions =
             Inr (priorityMove b (aiStone ai) (winCount (config (game ai))) emptyPositions fallback) \<and>
           (emptyPositions \<noteq> [] \<longrightarrow> fallback \<noteq> None) \<and>
           (length b < 100 \<and> (\<forall>p\<in>set emptyPositions. col p < 100) \<longrightarrow>
              fallback = firstMaximum b (aiStone ai) emptyPositions)"
proof -
  let ?w = "winCount (config (game ai))" and ?me = "aiStone ai"
  let ?opp = "otherStone (aiStone ai)"
  let ?P1 = "\<lambda>p. checkWinAt (withStone b p ?me) p ?me ?w"
  let ?P2 = "\<lambda>p. checkWinAt (withStone b p ?opp) p ?opp ?w"
  let ?fallback = "bestMove_loop b ?me ?opp None
                     (case emptyPositions of [] \<Rightarrow> None | p0 # _ \<Rightarrow> Some p0) emptyPositions"
  let ?mv = "priorityMove b ?me ?w emptyPositions ?fallback"
  have opp: "(if aiStone ai = Black then White else Black) = ?opp"
    by (simp add: otherStone_def)
  have fw1: "firstWinning b ?me ?w emptyPositions =
           (case find ?P1 emptyPositions of
              None \<Rightarrow> Inr (None, b)
            | Some pos \<Rightarrow> Inr (Some pos, withStone b pos ?me))"
    by (rule firstWinning_char[OF assms])
  have fw2: "firstWinning b ?opp ?w emptyPositions =
           (case find ?P2 emptyPositions of
              None \<Rightarrow> Inr (None, b)
            | Some pos \<Rightarrow> Inr (Some pos, withStone b pos ?opp))"
    by (rule firstWinning_char[OF assms])
  have normal: "getNormalMove ai b emptyPositions = Inr ?mv"
    unfolding getNormalMove_def Let_def createBoardCopy_id opp fw1 priorityMove_def
    by (cases "find ?P1 emptyPositions"; cases "find ?P2 emptyPositions") (simp_all add: fw2)
  have wm: "findWinningMoves ai b emptyPositions = Inr (filter ?P1 emptyPositions)"
    unfolding findWinningMoves_def createBoardCopy_id by (rule allWinning_char[OF assms])
  have bm: "findBlockingMoves ai b emptyPositions = Inr (filter ?P2 emptyPositions)"
    unfolding findBlockingMoves_def Let_def createBoardCopy_id opp
    by (rule allWinning_char[OF assms])
  have hard: "getHardMove ai b emptyPositions = Inr ?mv"
    unfolding getHardMove_def normal wm bm priorityMove_def find_as_filter
    by (cases "filter ?P1 emptyPositions"; cases "filter ?P2 emptyPositions") simp_all
  have some: "?fallback \<noteq> None" if "emptyPositions \<noteq> []"
  proof -
    from that have "(case emptyPositions of [] \<Rightarrow> None | p0 # _ \<Rightarrow> Some p0) \<noteq> None"
      by (cases emptyPositions) simp_all
    from bestMove_loop_Some[OF this] show ?thesis .
  qed
  have first: "?fallback = firstMaximum b ?me emptyPositions"
    unfolding firstMaximum_def by (rule bestMove_loop_first_max)
  from normal hard some first show ?thesis by blast
qed

theorem getHardMove_eq_getNormalMove_witness:
  "getNormalMove aiHardWhite3 (board quiet3) emptiesQuiet3 = Inr (Some \<lparr> row = 1, col = 2 \<rparr>) \<and>
   getHardMove aiHardWhite3 (board quiet3) emptiesQuiet3 = Inr (Some \<lparr> row = 1, col = 2 \<rparr>) \<and>
   checkWinAt (withStone (board quiet3) \<lparr> row = 0, col = 2 \<rparr> Black) \<lparr> row = 0, col = 2 \<rparr> Black 3 \<and>
   getNormalMove aiNormal3 (board center3) empties3 = Inr (Some \<lparr> row = 1, col = 2 \<rparr>) \<and>
   getHardMove aiNormal3 (board center3) empties3 = Inr (Some \<lparr> row = 1, col = 2 \<rparr>) \<and>
   firstMaximum (board center3) White empties3 = Some \<lparr> row = 1, col = 2 \<rparr>"
proof -
  have q: "\<forall>p\<in>set emptiesQuiet3. readCell (board quiet3) (row p) (col p) = Inr Null"
    by code_simp
  have qn: "getNormalMove aiHardWhite3 (board quiet3) emptiesQuiet3 = Inr (Some \<lparr> row = 1, col = 2 \<rparr>)"
    by code_simp
  have qb: "checkWinAt (withStone (board quiet3) \<lparr> row = 0, col = 2 \<rparr> Black) \<lparr> row = 0, col = 2 \<rparr> Black 3"
    by code_simp
  have c: "\<forall>p\<in>set empties3. readCell (board center3) (row p) (col p) = Inr Null"
    by code_simp
  have small: "length (board center3) < 100 \<and> (\<forall>p\<in>set empties3. col p < 100)"
    by code_simp
  have cn: "getNormalMove aiNormal3 (board center3) empties3 = Inr (Some \<lparr> row = 1, col = 2 \<rparr>)"
    by code_simp
  have none1: "find (\<lambda>p. checkWinAt (withStone (board center3) p White) p White 3) empties3 = None"
    by code_simp
  have none2: "find (\<lambda>p. checkWinAt (withStone (board center3) p Black) p Black 3) empties3 = None"
    by code_simp
  have s: "aiStone aiNormal3 = White" "winCount (config (game aiNormal3)) = 3"
    "otherStone White = Black"
    by code_simp+
  from getHardMove_eq_getNormalMove[OF q, of aiHardWhite3] qn
  have qh: "getHardMove aiHardWhite3 (board quiet3) emptiesQuiet3 = Inr (Some \<lparr> row = 1, col = 2 \<rparr>)"
    by auto
  from getHardMove_eq_getNormalMove[OF c, of aiNormal3] small obtain fallback where
    n: "getNormalMove aiNormal3 (board center3) empties3 =
          Inr (priorityMove (board center3) White 3 empties3 fallback)"
    and h: "getHardMove aiNormal3 (board center3) empties3 =
          Inr (priorityMove (board center3) White 3 empties3 fallback)"
    and f: "fallback = firstMaximum (board center3) White empties3"
    unfolding s by blast
  have p: "priorityMove (board center3) White 3 empties3 fallback = fallback"
    unfolding priorityMove_def s none1 none2 by simp
  from n h f cn qn qh qb show ?thesis unfolding p by simp
qed

text \<open>
  C7. For every board, position and stone, \<open>evaluatePosition\<close> is the sum over the four
  axes of the table value of the axis, where the run length of an axis is one plus the
  consecutive matching cells met walking outward in its two directions, and its open
  ends are those of the two cells just beyond the runs that are in bounds and empty.
\<close>

theorem evaluatePosition_spec:
  "evaluatePosition b p s = spec_positionValue b p s"
proof -
  have d: "directions = map (\<lambda>d. (d, opposite d)) axes"
    by (simp add: directions_def axes_def opposite_def)
  have nz: "\<forall>d\<in>set axes. fst d \<noteq> 0 \<or> snd d \<noteq> 0" by (simp add: axes_def)
  show ?thesis
    unfolding evaluatePosition_def spec_positionValue_def d
    using evaluatePosition_loop_spec[OF nz, of b p s 0] by simp
qed

theorem evaluatePosition_spec_witness:
  "evaluatePosition (board scenarioBefore) \<lparr> row = 7, col = 11 \<rparr> Black = 100000 \<and>
   spec_positionValue (board scenarioBefore) \<lparr> row = 7, col = 11 \<rparr> Black = 100000 \<and>
   evaluatePosition (board center3) \<lparr> row = 0, col = 0 \<rparr> Black = 10 \<and>
   spec_positionValue (board center3) \<lparr> row = 0, col = 0 \<rparr> Black = 10"
proof -
  have 1: "evaluatePosition (board scenarioBefore) \<lparr> row = 7, col = 11 \<rparr> Black = 100000"
    by code_simp
  have 2: "evaluatePosition (board center3) \<lparr> row = 0, col = 0 \<rparr> Black = 10"
    by code_simp
  from 1 2 evaluatePosition_spec[of "board scenarioBefore" "\<lparr> row = 7, col = 11 \<rparr>" Black]
    evaluatePosition_spec[of "board center3" "\<lparr> row = 0, col = 0 \<rparr>" Black]
  show ?thesis by simp
qed

text \<open>
  C8 fails on the code. In the default game, after Black's first stone on the centre
  (7,7), no placement wins at once for either side, and the normal tier proposes (7,9).
  Under the scoring of the claim, with the distance measured to the centre cell (7,7),
  the empty position (5,7), which comes earlier in row-major order, scores no less than
  (7,9). The code measures the distance from (7.5, 7.5) (\<open>board.length / 2\<close> without
  rounding down), so that (5,7) scores strictly less than (7,9).
\<close>

theorem normal_fallback_off_center:
  "placeStone freshDefault \<lparr> row = 7, col = 7 \<rparr> 1 = Inr (True, afterCenter) \<and>
   getNextMove aiNormal 0 = Inr (Some \<lparr> row = 7, col = 9 \<rparr>) \<and>
   readCell (board afterCenter) 5 7 = Inr Null \<and>
   spec_score (board afterCenter) White \<lparr> row = 7, col = 9 \<rparr>
     \<le> spec_score (board afterCenter) White \<lparr> row = 5, col = 7 \<rparr> \<and>
   moveScore (board afterCenter) White Black \<lparr> row = 5, col = 7 \<rparr>
     < moveScore (board afterCenter) White Black \<lparr> row = 7, col = 9 \<rparr> \<and>
   (case getEmptyPositions afterCenter of
      Inl e \<Rightarrow> False
    | Inr emptyPositions \<Rightarrow>
        findWinningMoves aiNormal (board afterCenter) emptyPositions = Inr [] \<and>
        findBlockingMoves aiNormal (board afterCenter) emptyPositions = Inr [])"
  by code_simp

text \<open>
  C10. On a board whose cell at \<open>p\<close> holds \<open>s\<close>, the selector's \<open>checkWinAt\<close> returns
  exactly what the engine's \<open>checkWin\<close> returns for an engine holding that board, whose
  board size is the board's length and whose win count is \<open>w\<close>; \<open>checkWin\<close> raises no
  exception there.
\<close>

theorem checkWinAt_agrees_checkWin:
  assumes "board g = b" and "boardSize (config g) = int (length b)"
    and "winCount (config g) = w"
    and "readCell b (row p) (col p) = Inr (Has s)"
  shows "\<exists>g'. checkWin g p = Inr (checkWinAt b p s w, g')"
  using loops_agree[of g s p directions] assms
  by (simp add: checkWin_def checkWinAt_def)

theorem checkWinAt_agrees_checkWin_witness:
  "boardSize (config won3) = int (length (board won3)) \<and> winCount (config won3) = 3 \<and>
   readCell (board won3) 0 2 = Inr (Has Black) \<and>
   checkWinAt (board won3) \<lparr> row = 0, col = 2 \<rparr> Black 3 \<and>
   checkWin won3 \<lparr> row = 0, col = 2 \<rparr> = Inr (True, won3) \<and>
   \<not> checkWinAt (board won3) \<lparr> row = 1, col = 0 \<rparr> White 3 \<and>
   checkWin won3 \<lparr> row = 1, col = 0 \<rparr> = Inr (False, won3)"
proof -
  have h1: "board won3 = board won3" by simp
  have h2: "boardSize (config won3) = int (length (board won3))" by code_simp
  have h3: "winCount (config won3) = 3" by code_simp
  have h4: "readCell (board won3) (row \<lparr> row = 0, col = 2 \<rparr>) (col \<lparr> row = 0, col = 2 \<rparr>) = Inr (Has Black)"
    by code_simp
  have h5: "readCell (board won3) (row \<lparr> row = 1, col = 0 \<rparr>) (col \<lparr> row = 1, col = 0 \<rparr>) = Inr (Has White)"
    by code_simp
  have e1: "checkWin won3 \<lparr> row = 0, col = 2 \<rparr> = Inr (True, won3)" by code_simp
  have e2: "checkWin won3 \<lparr> row = 1, col = 0 \<rparr> = Inr (False, won3)" by code_simp
  from checkWinAt_agrees_checkWin[OF h1 h2 h3 h4] checkWinAt_agrees_checkWin[OF h1 h2 h3 h5]
    h2 h3 h4 e1 e2
  show ?thesis by simp
qed

end
